theory Spec2Isabelle
  imports Main
begin

section \<open>Request headers of the client\<close>

text \<open>
  The client object keeps one dictionary of base headers (\<open>self.__headers\<close>). Python
  dictionaries are mutable objects reached through references, so the model keeps them in
  a store: a list of dictionaries, a reference being an index into it. A header value is
  \<open>None\<close> where Python's is \<open>None\<close> (no api key given, none in the environment).
\<close>

type_synonym headers = "string \<rightharpoonup> string option"

type_synonym store = "headers list"

type_synonym environ = "string \<rightharpoonup> string"

record client =
  headers_ref :: nat
  api_url :: string

definition BAGEL_API_KEY :: string where
  "BAGEL_API_KEY = ''BAGEL_API_KEY''"

definition X_API_KEY :: string where
  "X_API_KEY = ''x-api-key''"

text \<open>\<open>d.copy()\<close>: a new dictionary object with the entries of \<open>d\<close>; the store grows by one.\<close>

definition dict_copy :: "store \<Rightarrow> nat \<Rightarrow> nat \<times> store" where
  "dict_copy st r = (length st, st @ [st ! r])"

text \<open>\<open>d[k] = v\<close>: the object behind the reference is updated in place.\<close>

definition dict_setitem :: "store \<Rightarrow> nat \<Rightarrow> string \<Rightarrow> string option \<Rightarrow> store" where
  "dict_setitem st r k v = st[r := (st ! r)(k \<mapsto> v)]"

text \<open>
  \<open>_popuate_headers_with_api_key(self, api_key)\<close> (the leading underscore is dropped, the
  spelling is the source's): copy the base headers, take the api key of the environment
  when none is given, store it in the copy and return the copy.
\<close>

definition popuate_headers_with_api_key ::
  "environ \<Rightarrow> client \<Rightarrow> string option \<Rightarrow> store \<Rightarrow> nat \<times> store" where
  "popuate_headers_with_api_key env self api_key st =
     (let (headers, st1) = dict_copy st (headers_ref self);
          api_key1 = (if env BAGEL_API_KEY \<noteq> None \<and> api_key = None
                      then env BAGEL_API_KEY else api_key);
          st2 = dict_setitem st1 headers X_API_KEY api_key1
      in (headers, st2))"

section \<open>Responses, errors and the transport\<close>

text \<open>
  A JSON value as far as the client looks into it: an integer, a string, or anything else
  (arrays, objects, null, fractions), kept as its text. A response carries its status code,
  its body as text and, where the body parses as a JSON object, the object
  (\<open>resp.json()\<close>); a body that is no JSON object makes every lookup in it raise, which
  the model reports as one error, \<open>BodyError\<close>.

  The transport is modelled at the level of the responses it returns: a function from the
  request (for the query call also from the number of requests sent before) to the
  response. A request that raises inside the transport (no connection, a time-out) ends
  the calling operation with that exception; this is not modelled.
\<close>

datatype jval = JInt int | JStr string | JOther string

type_synonym json_obj = "string \<rightharpoonup> jval"

record response =
  status_code :: int
  resp_text :: string
  resp_json :: "json_obj option"

datatype error =
    BagelError string jval
  | GenericError string
  | HTTPError int
  | BodyError
  | KeyError string
  | TypeError
  | UnboundLocalError
  | StopIteration
  | FileNotFoundError
  | CsvError
  | EmptyDataError
  | ParserError

text \<open>\<open>resp.raise_for_status()\<close> raises for the statuses 400 to 599; \<open>resp.ok\<close> is true
  when it does not raise.\<close>

definition raise_for_status :: "response \<Rightarrow> error option" where
  "raise_for_status resp =
     (if 400 \<le> status_code resp \<and> status_code resp < 600
      then Some (HTTPError (status_code resp)) else None)"

definition ok :: "response \<Rightarrow> bool" where
  "ok resp = (raise_for_status resp = None)"

text \<open>
  \<open>raise_bagel_error(resp)\<close>; \<open>None\<close> is the normal return. The table
  \<open>errors.error_types\<close> lives in a module that is not part of the sources at hand, so
  the set of error codes it knows is the parameter \<open>error_types\<close>; the typed error it
  builds is \<open>BagelError code message\<close>. Every exception of the first \<open>try\<close> block (no JSON
  body, no \<open>message\<close> entry, an unhashable code) is swallowed there and leaves
  \<open>bagel_error\<close> unset.
\<close>

definition raise_bagel_error :: "(string \<Rightarrow> bool) \<Rightarrow> response \<Rightarrow> error option" where
  "raise_bagel_error error_types resp =
     (if ok resp then None
      else
        let bagel_error =
          (case resp_json resp of
             None \<Rightarrow> None
           | Some body \<Rightarrow>
               (case body ''error'' of
                  None \<Rightarrow> None
                | Some (JStr code) \<Rightarrow>
                    (if error_types code
                     then (case body ''message'' of
                             None \<Rightarrow> None
                           | Some message \<Rightarrow> Some (BagelError code message))
                     else None)
                | Some _ \<Rightarrow> None))
        in case bagel_error of
             Some e \<Rightarrow> Some e
           | None \<Rightarrow>
               (case raise_for_status resp of
                  Some _ \<Rightarrow> Some (GenericError (resp_text resp))
                | None \<Rightarrow> None))"

section \<open>The retrying query call\<close>

record 'a request =
  req_url :: string
  req_headers :: headers
  req_data :: 'a

record query_result =
  ids :: jval
  distances :: "jval option"
  embeddings :: "jval option"
  metadatas :: "jval option"
  documents :: "jval option"

text \<open>What the call does to the world: requests posted, and the delays slept.\<close>

record qworld =
  posts :: nat
  sleeps :: "int list"

definition max_retries :: int where
  "max_retries = 3"

definition retry_delay :: int where
  "retry_delay = 1"

text \<open>\<open>range(n)\<close> for an integer \<open>n\<close>.\<close>

definition range0 :: "int \<Rightarrow> int list" where
  "range0 n = map int [0 ..< nat n]"

text \<open>
  The \<open>for attempt in range(max_retries)\<close> loop of \<open>_query\<close>. The variable \<open>resp\<close> is
  unbound before the first pass (\<open>None\<close> here); \<open>break\<close> ends the recursion.
\<close>

fun query_attempts ::
  "(nat \<Rightarrow> 'a request \<Rightarrow> response) \<Rightarrow> 'a request \<Rightarrow> int list
     \<Rightarrow> response option \<times> qworld \<Rightarrow> response option \<times> qworld" where
  "query_attempts tr rq [] (resp, w) = (resp, w)"
| "query_attempts tr rq (attempt # rest) (resp, w) =
     (let resp1 = tr (posts w) rq;
          w1 = w\<lparr>posts := posts w + 1\<rparr>
      in if ok resp1 then (Some resp1, w1)
         else if attempt < max_retries - 1
         then query_attempts tr rq rest
                (Some resp1, w1\<lparr>sleeps := sleeps w1 @ [retry_delay]\<rparr>)
         else query_attempts tr rq rest (Some resp1, w1))"

text \<open>The tail of \<open>_query\<close>: \<open>body = resp.json()\<close> and the \<open>QueryResult\<close> built from it.\<close>

definition query_result_of :: "response \<Rightarrow> error + query_result" where
  "query_result_of resp =
     (case resp_json resp of
        None \<Rightarrow> Inl BodyError
      | Some body \<Rightarrow>
          (case body ''ids'' of
             None \<Rightarrow> Inl (KeyError ''ids'')
           | Some i \<Rightarrow>
               Inr \<lparr>ids = i, distances = body ''distances'',
                    embeddings = body ''embeddings'', metadatas = body ''metadatas'',
                    documents = body ''documents''\<rparr>))"

text \<open>
  \<open>_query\<close>. \<open>payload\<close> stands for the JSON text of the six query arguments, which the
  loop sends unchanged in every attempt.
\<close>

definition query_request :: "client \<Rightarrow> string \<Rightarrow> 'a \<Rightarrow> headers \<Rightarrow> 'a request" where
  "query_request self cluster_id payload hdrs =
     \<lparr>req_url = api_url self @ ''/clusters/'' @ cluster_id @ ''/query'',
      req_headers = hdrs, req_data = payload\<rparr>"

definition query ::
  "(string \<Rightarrow> bool) \<Rightarrow> (nat \<Rightarrow> 'a request \<Rightarrow> response) \<Rightarrow> environ \<Rightarrow> client
     \<Rightarrow> string \<Rightarrow> 'a \<Rightarrow> string option \<Rightarrow> store \<times> qworld
     \<Rightarrow> (error + query_result) \<times> store \<times> qworld" where
  "query error_types tr env self cluster_id payload api_key sw =
     (let (st, w) = sw;
          (headers, st1) = popuate_headers_with_api_key env self api_key st;
          (resp, w1) = query_attempts tr
                         (query_request self cluster_id payload (st1 ! headers))
                         (range0 max_retries) (None, w)
      in case resp of
           None \<Rightarrow> (Inl UnboundLocalError, st1, w1)
         | Some r \<Rightarrow>
             (case raise_bagel_error error_types r of
                Some e \<Rightarrow> (Inl e, st1, w1)
              | None \<Rightarrow> (query_result_of r, st1, w1)))"

section \<open>Strings of the chunk format\<close>

text \<open>
  Python strings are lists of characters here. A \<open>char\<close> of HOL has 256 values, so the
  model covers the code points below 256; the line boundaries that \<open>splitlines\<close> knows
  beyond them (U+2028, U+2029) are out of its reach.
\<close>

definition quotechar :: char where
  "quotechar = CHR 0x22"

definition delimiter :: char where
  "delimiter = CHR 0x2C"

definition LF :: char where
  "LF = CHR 0x0A"

definition CR :: char where
  "CR = CHR 0x0D"

text \<open>\<open>sep.join(xs)\<close>.\<close>

fun str_join :: "string \<Rightarrow> string list \<Rightarrow> string" where
  "str_join sep [] = []"
| "str_join sep [x] = x"
| "str_join sep (x # y # ys) = x @ sep @ str_join sep (y # ys)"

text \<open>\<open>s.replace(c, new)\<close> for a single character \<open>c\<close>.\<close>

definition str_replace :: "char \<Rightarrow> string \<Rightarrow> string \<Rightarrow> string" where
  "str_replace c new s = concat (map (\<lambda>x. if x = c then new else [x]) s)"

text \<open>
  \<open>s.splitlines()\<close>: the pieces of \<open>s\<close> between line boundaries, without them. A
  boundary is LF, CR, CR LF, VT, FF, FS, GS, RS or NEL; text after the last boundary is a
  last line when it is not empty. \<open>splitlines_acc\<close> carries the line read so far.
\<close>

definition is_linebreak :: "char \<Rightarrow> bool" where
  "is_linebreak c =
     (c = LF \<or> c = CR \<or> c = CHR 0x0B \<or> c = CHR 0x0C \<or> c = CHR 0x1C \<or> c = CHR 0x1D
      \<or> c = CHR 0x1E \<or> c = CHR 0x85)"

fun splitlines_acc :: "string \<Rightarrow> string \<Rightarrow> string list" where
  "splitlines_acc cur [] = (if cur = [] then [] else [cur])"
| "splitlines_acc cur (c # cs) =
     (if c = CR then
        (case cs of
           d # ds \<Rightarrow> if d = LF then cur # splitlines_acc [] ds else cur # splitlines_acc [] cs
         | [] \<Rightarrow> cur # splitlines_acc [] cs)
      else if is_linebreak c then cur # splitlines_acc [] cs
      else splitlines_acc (cur @ [c]) cs)"

definition splitlines :: "string \<Rightarrow> string list" where
  "splitlines s = splitlines_acc [] s"

text \<open>
  Iterating over a text file opened with \<open>newline=''\<close>: the lines of the file, each with
  its terminator (LF, CR or CR LF) as written.
\<close>

fun readlines_acc :: "string \<Rightarrow> string \<Rightarrow> string list" where
  "readlines_acc cur [] = (if cur = [] then [] else [cur])"
| "readlines_acc cur (c # cs) =
     (if c = LF then (cur @ [c]) # readlines_acc [] cs
      else if c = CR then
        (case cs of
           d # ds \<Rightarrow> if d = LF then (cur @ [c, d]) # readlines_acc [] ds
                     else (cur @ [c]) # readlines_acc [] cs
         | [] \<Rightarrow> (cur @ [c]) # readlines_acc [] cs)
      else readlines_acc (cur @ [c]) cs)"

definition readlines :: "string \<Rightarrow> string list" where
  "readlines s = readlines_acc [] s"

section \<open>The chunk codec: encoding\<close>

text \<open>
  The encoding is written inline in \<open>upload_dataset\<close>. \<open>quote_field\<close> is
  \<open>'"{}"'.format(field.replace('"', '""'))\<close>; \<open>quoted_row\<close> is the list comprehension
  over a row joined by commas (the value appended to \<open>rows\<close>); \<open>header_str\<close> and
  \<open>chunk_data\<close> are the variables of these names.
\<close>

definition quote_field :: "string \<Rightarrow> string" where
  "quote_field field = [quotechar] @ str_replace quotechar [quotechar, quotechar] field @ [quotechar]"

definition quoted_row :: "string list \<Rightarrow> string" where
  "quoted_row row = str_join [delimiter] (map quote_field row)"

definition header_str :: "string list \<Rightarrow> string" where
  "header_str header = str_join [delimiter] (map quote_field header) @ [LF]"

definition chunk_data :: "string \<Rightarrow> string list \<Rightarrow> string" where
  "chunk_data hs rows = hs @ str_join [LF] rows"

definition encode :: "string list \<Rightarrow> string list list \<Rightarrow> string" where
  "encode header rows = chunk_data (header_str header) (map quoted_row rows)"

section \<open>The chunk codec: decoding\<close>

text \<open>
  Decoding is \<open>pd.read_csv(StringIO(text), on_bad_lines='skip')\<close>. pandas is a library,
  not code of this repository; what follows models its documented reading of quoted CSV
  with the default settings (comma, double quote, doubled quotes inside quoted fields,
  blank lines skipped, first line the header) as its C tokenizer carries it out, one
  character at a time. The tokenizer yields the lines kept, each a list of fields, which
  are strings. From these pandas builds the frame it returns: it infers the type of each
  column (numeric text becomes numbers), turns the empty field and the markers such as
  \<open>NA\<close> into missing values, renames repeated and empty column names, and takes an index
  from a first row that is longer than the header. This last stage is pandas' own and is
  a parameter of \<open>read_csv\<close> below: \<open>frame header rows\<close> is the frame built from the
  first line kept and the lines kept after it, or the error raised while building it.
\<close>

datatype pd_state =
    PD_START_RECORD
  | PD_START_FIELD
  | PD_IN_FIELD
  | PD_IN_QUOTED_FIELD
  | PD_QUOTE_IN_QUOTED_FIELD
  | PD_EAT_CRNL
  | PD_EAT_CRNL_NOP
  | PD_WHITESPACE_LINE

record parser =
  pstate :: pd_state
  ptoken :: string
  pline :: "string list"
  plines :: "string list list"
  pws :: string

definition header_end :: nat where
  "header_end = 0"

definition end_field :: "parser \<Rightarrow> parser" where
  "end_field p = p\<lparr>pline := pline p @ [ptoken p], ptoken := []\<rparr>"

text \<open>
  The end of a line. \<open>ex_fields\<close> is the number of fields of the line kept before. A
  line after the first data line with more fields than that is a bad line, and with
  \<open>on_bad_lines='skip'\<close> it is dropped; a line from the first data line on with fewer
  fields is filled up with empty fields.
\<close>

definition end_line :: "parser \<Rightarrow> parser" where
  "end_line p =
     (let fields = int (length (pline p));
          lines = length (plines p);
          ex_fields = (if lines > 0 then int (length (last (plines p))) else - 1)
      in if \<not> (lines \<le> header_end + 1) \<and> fields > ex_fields
         then p\<lparr>pline := []\<rparr>
         else p\<lparr>plines := plines p @
                  [pline p @ (if lines \<ge> header_end + 1 \<and> fields < ex_fields
                              then replicate (nat (ex_fields - fields)) []
                              else [])],
                pline := []\<rparr>)"

definition is_whitespace :: "char \<Rightarrow> bool" where
  "is_whitespace c = (c = CHR '' '' \<or> c = CHR 0x09)"

definition tok_start_field :: "parser \<Rightarrow> char \<Rightarrow> parser" where
  "tok_start_field p c =
     (if c = LF then (end_line (end_field p))\<lparr>pstate := PD_START_RECORD\<rparr>
      else if c = CR then (end_field p)\<lparr>pstate := PD_EAT_CRNL\<rparr>
      else if c = quotechar then p\<lparr>pstate := PD_IN_QUOTED_FIELD\<rparr>
      else if c = delimiter then (end_field p)\<lparr>pstate := PD_START_FIELD\<rparr>
      else p\<lparr>ptoken := ptoken p @ [c], pstate := PD_IN_FIELD\<rparr>)"

definition tok_in_field :: "parser \<Rightarrow> char \<Rightarrow> parser" where
  "tok_in_field p c =
     (if c = LF then (end_line (end_field p))\<lparr>pstate := PD_START_RECORD\<rparr>
      else if c = CR then (end_field p)\<lparr>pstate := PD_EAT_CRNL\<rparr>
      else if c = delimiter then (end_field p)\<lparr>pstate := PD_START_FIELD\<rparr>
      else p\<lparr>ptoken := ptoken p @ [c]\<rparr>)"

definition tok_start_record :: "parser \<Rightarrow> char \<Rightarrow> parser" where
  "tok_start_record p c =
     (if c = LF then p
      else if c = CR then p\<lparr>pstate := PD_EAT_CRNL_NOP\<rparr>
      else if is_whitespace c \<and> c \<noteq> delimiter
      then p\<lparr>pstate := PD_WHITESPACE_LINE, pws := [c]\<rparr>
      else tok_start_field (p\<lparr>pstate := PD_START_FIELD\<rparr>) c)"

text \<open>
  One character in any state. A line that starts with blanks is skipped when nothing else
  follows on it; otherwise the tokenizer goes back to the start of the line and reads the
  blanks as the start of an unquoted field. After a lone CR the line ends and the
  character is read again as the start of a record.
\<close>

definition tok_char :: "parser \<Rightarrow> char \<Rightarrow> parser" where
  "tok_char p c =
     (case pstate p of
        PD_START_RECORD \<Rightarrow> tok_start_record p c
      | PD_START_FIELD \<Rightarrow> tok_start_field p c
      | PD_IN_FIELD \<Rightarrow> tok_in_field p c
      | PD_IN_QUOTED_FIELD \<Rightarrow>
          (if c = quotechar then p\<lparr>pstate := PD_QUOTE_IN_QUOTED_FIELD\<rparr>
           else p\<lparr>ptoken := ptoken p @ [c]\<rparr>)
      | PD_QUOTE_IN_QUOTED_FIELD \<Rightarrow>
          (if c = quotechar then p\<lparr>ptoken := ptoken p @ [c], pstate := PD_IN_QUOTED_FIELD\<rparr>
           else if c = delimiter then (end_field p)\<lparr>pstate := PD_START_FIELD\<rparr>
           else if c = LF then (end_line (end_field p))\<lparr>pstate := PD_START_RECORD\<rparr>
           else if c = CR then (end_field p)\<lparr>pstate := PD_EAT_CRNL\<rparr>
           else p\<lparr>ptoken := ptoken p @ [c], pstate := PD_IN_FIELD\<rparr>)
      | PD_WHITESPACE_LINE \<Rightarrow>
          (if c = LF then p\<lparr>pstate := PD_START_RECORD, pws := []\<rparr>
           else if c = CR then p\<lparr>pstate := PD_EAT_CRNL_NOP, pws := []\<rparr>
           else if is_whitespace c \<and> c \<noteq> delimiter then p\<lparr>pws := pws p @ [c]\<rparr>
           else tok_in_field (p\<lparr>ptoken := ptoken p @ pws p, pws := [], pstate := PD_IN_FIELD\<rparr>) c)
      | PD_EAT_CRNL \<Rightarrow>
          (if c = LF then (end_line p)\<lparr>pstate := PD_START_RECORD\<rparr>
           else if c = delimiter then (end_field (end_line p))\<lparr>pstate := PD_START_FIELD\<rparr>
           else tok_start_record ((end_line p)\<lparr>pstate := PD_START_RECORD\<rparr>) c)
      | PD_EAT_CRNL_NOP \<Rightarrow>
          (if c \<noteq> LF \<and> c \<noteq> delimiter
           then tok_start_record (p\<lparr>pstate := PD_START_RECORD\<rparr>) c
           else p\<lparr>pstate := PD_START_RECORD\<rparr>))"

text \<open>The end of the input: inside a quoted field it is an error, which
  \<open>on_bad_lines\<close> does not cover; an unfinished line is finished.\<close>

definition handle_eof :: "parser \<Rightarrow> error + parser" where
  "handle_eof p =
     (case pstate p of
        PD_START_RECORD \<Rightarrow> Inr p
      | PD_WHITESPACE_LINE \<Rightarrow> Inr p
      | PD_EAT_CRNL_NOP \<Rightarrow> Inr p
      | PD_IN_QUOTED_FIELD \<Rightarrow> Inl ParserError
      | PD_IN_FIELD \<Rightarrow> Inr (end_line (end_field p))
      | PD_START_FIELD \<Rightarrow> Inr (end_line (end_field p))
      | PD_QUOTE_IN_QUOTED_FIELD \<Rightarrow> Inr (end_line (end_field p))
      | PD_EAT_CRNL \<Rightarrow> Inr (end_line p))"

definition parser_init :: parser where
  "parser_init = \<lparr>pstate = PD_START_RECORD, ptoken = [], pline = [], plines = [], pws = []\<rparr>"

definition tokenize :: "string \<Rightarrow> error + parser" where
  "tokenize s = handle_eof (foldl tok_char parser_init s)"

text \<open>\<open>read_csv\<close>: the first line kept is the header, the others are the rows, and the
  frame is built from them; with no line at all there are no columns to parse.\<close>

definition read_csv ::
  "(string list \<Rightarrow> string list list \<Rightarrow> error + 'df) \<Rightarrow> string \<Rightarrow> error + 'df" where
  "read_csv frame s =
     (case tokenize s of
        Inl e \<Rightarrow> Inl e
      | Inr p \<Rightarrow>
          (case plines p of
             [] \<Rightarrow> Inl EmptyDataError
           | header # rows \<Rightarrow> frame header rows))"

text \<open>
  For the closed examples a frame stage is needed: \<open>token_frame\<close> keeps the fields as
  they are, so that a frame is written as the header and the rows it is built from. It
  is not pandas' conversion; the theorems about decoding hold for every frame stage.
\<close>

type_synonym table = "string list \<times> string list list"

definition token_frame :: "string list \<Rightarrow> string list list \<Rightarrow> error + table" where
  "token_frame header rows = Inr (header, rows)"

text \<open>
  For stating what decoding keeps: the lines kept after a line with the fields \<open>row\<close>
  ends, when the lines \<open>ls\<close> were kept before. It is \<open>end_line\<close> seen on the lines alone.
\<close>

definition keep_line :: "string list list \<Rightarrow> string list \<Rightarrow> string list list" where
  "keep_line ls row =
     plines (end_line \<lparr>pstate = PD_START_RECORD, ptoken = [], pline = row, plines = ls, pws = []\<rparr>)"

text \<open>The tokenizer at the start of a record, with the lines \<open>ls\<close> kept so far.\<close>

definition at_start :: "string list list \<Rightarrow> parser" where
  "at_start ls = \<lparr>pstate = PD_START_RECORD, ptoken = [], pline = [], plines = ls, pws = []\<rparr>"

section \<open>Reading the input file: Python's csv reader\<close>

text \<open>
  \<open>csv.reader(file)\<close> with the default dialect (comma, double quote, doubled quotes,
  not strict), as the state machine of the standard library runs it: the reader takes
  the lines of the file one by one and feeds their characters, then an end-of-line mark
  (\<open>None\<close>), to \<open>parse_process_char\<close>; a record is complete when a line ends in the state
  \<open>START_RECORD\<close>. A field may hold \<open>field_limit\<close> characters, 131072 by default; the
  reader raises when one more is added.
\<close>

datatype csv_state =
    START_RECORD
  | START_FIELD
  | IN_FIELD
  | IN_QUOTED_FIELD
  | QUOTE_IN_QUOTED_FIELD
  | EAT_CRNL

record reader =
  rstate :: csv_state
  rfield :: string
  rfields :: "string list"

definition parse_reset :: reader where
  "parse_reset = \<lparr>rstate = START_RECORD, rfield = [], rfields = []\<rparr>"

definition parse_save_field :: "reader \<Rightarrow> reader" where
  "parse_save_field r = r\<lparr>rfields := rfields r @ [rfield r], rfield := []\<rparr>"

definition field_limit :: int where
  "field_limit = 131072"

definition parse_add_char :: "reader \<Rightarrow> char \<Rightarrow> error + reader" where
  "parse_add_char r c =
     (if int (length (rfield r)) \<ge> field_limit then Inl CsvError
      else Inr (r\<lparr>rfield := rfield r @ [c]\<rparr>))"

text \<open>The state set after a character was added, unless adding it raised.\<close>

definition then_state :: "error + reader \<Rightarrow> csv_state \<Rightarrow> error + reader" where
  "then_state x s = (case x of Inl e \<Rightarrow> Inl e | Inr r \<Rightarrow> Inr (r\<lparr>rstate := s\<rparr>))"

definition after_eol :: "char option \<Rightarrow> csv_state" where
  "after_eol c = (if c = None then START_RECORD else EAT_CRNL)"

definition is_eol :: "char option \<Rightarrow> bool" where
  "is_eol c = (c = None \<or> c = Some LF \<or> c = Some CR)"

definition process_start_field :: "reader \<Rightarrow> char option \<Rightarrow> error + reader" where
  "process_start_field r c =
     (if is_eol c then Inr ((parse_save_field r)\<lparr>rstate := after_eol c\<rparr>)
      else if c = Some quotechar then Inr (r\<lparr>rstate := IN_QUOTED_FIELD\<rparr>)
      else if c = Some delimiter then Inr ((parse_save_field r)\<lparr>rstate := START_FIELD\<rparr>)
      else then_state (parse_add_char r (the c)) IN_FIELD)"

definition parse_process_char :: "reader \<Rightarrow> char option \<Rightarrow> error + reader" where
  "parse_process_char r c =
     (case rstate r of
        START_RECORD \<Rightarrow>
          (if c = None then Inr r
           else if c = Some LF \<or> c = Some CR then Inr (r\<lparr>rstate := EAT_CRNL\<rparr>)
           else process_start_field (r\<lparr>rstate := START_FIELD\<rparr>) c)
      | START_FIELD \<Rightarrow> process_start_field r c
      | IN_FIELD \<Rightarrow>
          (if is_eol c then Inr ((parse_save_field r)\<lparr>rstate := after_eol c\<rparr>)
           else if c = Some delimiter then Inr ((parse_save_field r)\<lparr>rstate := START_FIELD\<rparr>)
           else parse_add_char r (the c))
      | IN_QUOTED_FIELD \<Rightarrow>
          (if c = None then Inr r
           else if c = Some quotechar then Inr (r\<lparr>rstate := QUOTE_IN_QUOTED_FIELD\<rparr>)
           else parse_add_char r (the c))
      | QUOTE_IN_QUOTED_FIELD \<Rightarrow>
          (if c = Some quotechar then then_state (parse_add_char r quotechar) IN_QUOTED_FIELD
           else if c = Some delimiter then Inr ((parse_save_field r)\<lparr>rstate := START_FIELD\<rparr>)
           else if is_eol c then Inr ((parse_save_field r)\<lparr>rstate := after_eol c\<rparr>)
           else then_state (parse_add_char r (the c)) IN_FIELD)
      | EAT_CRNL \<Rightarrow>
          (if c = Some LF \<or> c = Some CR then Inr r
           else if c = None then Inr (r\<lparr>rstate := START_RECORD\<rparr>)
           else Inl CsvError))"

text \<open>The characters of one line, then the end-of-line mark.\<close>

fun process_chars :: "reader \<Rightarrow> char option list \<Rightarrow> error + reader" where
  "process_chars r [] = Inr r"
| "process_chars r (c # cs) =
     (case parse_process_char r c of
        Inl e \<Rightarrow> Inl e
      | Inr r1 \<Rightarrow> process_chars r1 cs)"

definition process_line :: "reader \<Rightarrow> string \<Rightarrow> error + reader" where
  "process_line r l = process_chars r (map Some l @ [None])"

text \<open>
  The records the reader yields over the lines left, and the error that ended the
  iteration, if one did. When the lines run out inside a quoted field, the record read
  so far is yielded.
\<close>

fun reader_records :: "reader \<Rightarrow> string list \<Rightarrow> string list list \<times> error option" where
  "reader_records r [] =
     (if rfield r \<noteq> [] \<or> rstate r = IN_QUOTED_FIELD
      then ([rfields (parse_save_field r)], None)
      else ([], None))"
| "reader_records r (l # ls) =
     (case process_line r l of
        Inl e \<Rightarrow> ([], Some e)
      | Inr r1 \<Rightarrow>
          (if rstate r1 = START_RECORD
           then (let (recs, err) = reader_records parse_reset ls in (rfields r1 # recs, err))
           else reader_records r1 ls))"

definition csv_reader :: "string list \<Rightarrow> string list list \<times> error option" where
  "csv_reader ls = reader_records parse_reset ls"

section \<open>The upload pipeline\<close>

text \<open>
  A chunk submission is the multipart request of \<open>_upload_chunk\<close>: the file part
  \<open>data_file\<close>, which is the pair of a name and the content, and the two form fields. The
  transport answers a submission with a status code. The world records the submissions in
  the order they were made and what the client printed; the progress bar is the pair of
  its total and its count.
\<close>

record upload_request =
  data_file_name :: string
  data_file :: string
  dataset_id :: string
  chunk_number :: int

datatype message = ChunkFailed int int | UploadCompleted

record uworld =
  sent :: "upload_request list"
  printed :: "message list"

record tqdm =
  pbar_total :: int
  pbar_n :: int

definition upload_chunk ::
  "(upload_request \<Rightarrow> int) \<Rightarrow> string \<Rightarrow> int \<Rightarrow> string \<Rightarrow> string \<Rightarrow> tqdm \<times> uworld
     \<Rightarrow> tqdm \<times> uworld" where
  "upload_chunk tr cdata cnumber file_name did pw =
     (let (pbar, w) = pw;
          rq = \<lparr>data_file_name = file_name, data_file = cdata,
                dataset_id = did, chunk_number = cnumber\<rparr>;
          status = tr rq;
          w1 = w\<lparr>sent := sent w @ [rq]\<rparr>
      in if status = 200
         then (pbar\<lparr>pbar_n := pbar_n pbar + (int (length (splitlines cdata)) - 1)\<rparr>, w1)
         else (pbar, w1\<lparr>printed := printed w1 @ [ChunkFailed cnumber status]\<rparr>))"

text \<open>One pass of the \<open>for row in reader\<close> loop; the state is the buffer \<open>rows\<close>, the
  counter of chunks, the progress bar and the world.\<close>

definition upload_step ::
  "(upload_request \<Rightarrow> int) \<Rightarrow> string \<Rightarrow> string \<Rightarrow> string \<Rightarrow> int
     \<Rightarrow> string list \<times> int \<times> tqdm \<times> uworld \<Rightarrow> string list
     \<Rightarrow> string list \<times> int \<times> tqdm \<times> uworld" where
  "upload_step tr hs file_name did rows_per_chunk s row =
     (let (rows, cnumber, pw) = s;
          rows1 = rows @ [quoted_row row]
      in if int (length rows1) = rows_per_chunk
         then ([], cnumber + 1,
               upload_chunk tr (chunk_data hs rows1) (cnumber + 1) file_name did pw)
         else (rows1, cnumber, pw))"

text \<open>
  \<open>str(Path(s))\<close> as the standard library computes it on a POSIX system: the root is
  \<open>/\<close>, or \<open>//\<close> for exactly two leading slashes; the components are the pieces between
  slashes that are neither empty nor \<open>.\<close>; the path with no root and no component is
  written \<open>.\<close>. Components \<open>..\<close> stay.
\<close>

fun split_acc :: "char \<Rightarrow> string \<Rightarrow> string \<Rightarrow> string list" where
  "split_acc sep cur [] = [cur]"
| "split_acc sep cur (c # cs) =
     (if c = sep then cur # split_acc sep [] cs else split_acc sep (cur @ [c]) cs)"

definition str_split :: "char \<Rightarrow> string \<Rightarrow> string list" where
  "str_split sep s = split_acc sep [] s"

definition slash :: char where
  "slash = CHR 0x2F"

definition splitroot :: "string \<Rightarrow> string \<times> string" where
  "splitroot part =
     (if take 1 part = [slash]
      then (let stripped_part = dropWhile (\<lambda>c. c = slash) part
            in if length part - length stripped_part = 2
               then ([slash, slash], stripped_part)
               else ([slash], stripped_part))
      else ([], part))"

definition path_str :: "string \<Rightarrow> string" where
  "path_str s =
     (let (root, rel) = splitroot s;
          parts = filter (\<lambda>x. x \<noteq> [] \<and> x \<noteq> ''.'') (str_split slash rel);
          res = root @ str_join [slash] parts
      in if res = [] then ''.'' else res)"

text \<open>
  \<open>upload_dataset\<close>. Line 569 rebinds \<open>file_path\<close> to \<open>Path(file_path)\<close>, and both calls of
  \<open>open\<close> are given this path; the file system maps the path opened to the text of the
  file. The name of the opened file, \<open>file.name\<close>, is the string of that path, and line 581
  assigns it to \<open>file_name\<close>. The function returns nothing in Python; the model returns the
  progress bar as it is closed.
\<close>

definition upload_dataset ::
  "(upload_request \<Rightarrow> int) \<Rightarrow> (string \<rightharpoonup> string) \<Rightarrow> string \<Rightarrow> string \<Rightarrow> string \<Rightarrow> int
     \<Rightarrow> uworld \<Rightarrow> (error + tqdm) \<times> uworld" where
  "upload_dataset tr fs file_path did file_name rows_per_chunk w =
     (let file_path1 = path_str file_path
      in case fs file_path1 of
        None \<Rightarrow> (Inl FileNotFoundError, w)
      | Some content \<Rightarrow>
          (let total_rows = int (length (readlines content)) - 1;
               pbar = \<lparr>pbar_total = total_rows, pbar_n = 0\<rparr>;
               (records, err) = csv_reader (readlines content);
               file_name1 = file_path1
           in case records of
                [] \<Rightarrow> (Inl (case err of Some e \<Rightarrow> e | None \<Rightarrow> StopIteration), w)
              | header # data \<Rightarrow>
                  (let hs = header_str header;
                       (rows, cnumber, pw) =
                          foldl (upload_step tr hs file_name1 did rows_per_chunk)
                            ([], 0, pbar, w) data
                   in case err of
                        Some e \<Rightarrow> (Inl e, snd pw)
                      | None \<Rightarrow>
                          (let (pbar2, w2) =
                                 (if rows \<noteq> []
                                  then upload_chunk tr (chunk_data hs rows) (cnumber + 1)
                                         file_name1 did pw
                                  else pw)
                           in (Inr pbar2, w2\<lparr>printed := printed w2 @ [UploadCompleted]\<rparr>)))))"

section \<open>The download pipeline\<close>

datatype get_request = DatasetInfo string | DownloadDataset string int

text \<open>\<open>info_response.json()['total_chunks']\<close>, as the integer that \<open>range\<close> needs.\<close>

definition total_chunks_of :: "response \<Rightarrow> error + int" where
  "total_chunks_of resp =
     (case resp_json resp of
        None \<Rightarrow> Inl BodyError
      | Some body \<Rightarrow>
          (case body ''total_chunks'' of
             None \<Rightarrow> Inl (KeyError ''total_chunks'')
           | Some (JInt k) \<Rightarrow> Inr k
           | Some _ \<Rightarrow> Inl TypeError))"

text \<open>
  The loop over \<open>range(1, total_chunks + 1)\<close>. The state is the list \<open>dfs\<close> and the log of
  the requests made. The functions of pandas are parameters: \<open>rd\<close> is
  \<open>pd.read_csv(StringIO(_), on_bad_lines='skip')\<close>.
\<close>

fun download_chunks ::
  "(string \<Rightarrow> error + 'df) \<Rightarrow> (get_request \<Rightarrow> response) \<Rightarrow> string \<Rightarrow> int list
     \<Rightarrow> 'df list \<times> get_request list \<Rightarrow> (error + 'df list) \<times> get_request list" where
  "download_chunks rd tr did [] (dfs, reqs) = (Inr dfs, reqs)"
| "download_chunks rd tr did (cnumber # rest) (dfs, reqs) =
     (let response = tr (DownloadDataset did cnumber);
          reqs1 = reqs @ [DownloadDataset did cnumber]
      in case raise_for_status response of
           Some e \<Rightarrow> (Inl e, reqs1)
         | None \<Rightarrow>
             (case rd (resp_text response) of
                Inl e \<Rightarrow> (Inl e, reqs1)
              | Inr df \<Rightarrow> download_chunks rd tr did rest (dfs @ [df], reqs1)))"

text \<open>
  \<open>load_dataset\<close>; \<open>cat\<close> is \<open>pd.concat(_, ignore_index=True)\<close> and \<open>empty_df\<close> is
  \<open>pd.DataFrame()\<close>. The headers built in its first line are not used by the requests.
\<close>

definition load_dataset ::
  "(string \<Rightarrow> error + 'df) \<Rightarrow> ('df list \<Rightarrow> 'df) \<Rightarrow> 'df \<Rightarrow> (get_request \<Rightarrow> response)
     \<Rightarrow> environ \<Rightarrow> client \<Rightarrow> string \<Rightarrow> store \<times> get_request list
     \<Rightarrow> (error + 'df) \<times> store \<times> get_request list" where
  "load_dataset rd cat empty_df tr env self did sl =
     (let (st, reqs) = sl;
          (headers, st1) = popuate_headers_with_api_key env self None st;
          info_response = tr (DatasetInfo did);
          reqs1 = reqs @ [DatasetInfo did]
      in case raise_for_status info_response of
           Some e \<Rightarrow> (Inl e, st1, reqs1)
         | None \<Rightarrow>
             (case total_chunks_of info_response of
                Inl e \<Rightarrow> (Inl e, st1, reqs1)
              | Inr total_chunks \<Rightarrow>
                  (case download_chunks rd tr did [1 .. total_chunks] ([], reqs1) of
                     (Inl e, reqs2) \<Rightarrow> (Inl e, st1, reqs2)
                   | (Inr dfs, reqs2) \<Rightarrow>
                       (Inr (if dfs \<noteq> [] then cat dfs else empty_df), st1, reqs2))))"

text \<open>For frames that share their header, \<open>pd.concat\<close> puts their rows one after
  another in the order of the list.\<close>

definition concat_frames :: "table list \<Rightarrow> table" where
  "concat_frames dfs = (fst (hd dfs), concat (map snd dfs))"

definition empty_frame :: table where
  "empty_frame = ([], [])"

section \<open>The requests of an upload, as a function of the rows\<close>

text \<open>
  Notions for stating what the upload pipeline does. \<open>submit\<close> is \<open>_upload_chunk\<close> applied
  to the parts of a request. \<open>loop_requests\<close> follows the loop of \<open>upload_dataset\<close> and
  collects the requests it makes, \<open>upload_requests\<close> adds the request of the last, partial
  buffer; neither looks at the transport. \<open>chunk_request\<close> is the request for the
  \<open>i\<close>-th window of \<open>k\<close> rows, counting from 0.
\<close>

definition submit :: "(upload_request \<Rightarrow> int) \<Rightarrow> tqdm \<times> uworld \<Rightarrow> upload_request \<Rightarrow> tqdm \<times> uworld" where
  "submit tr pw rq =
     upload_chunk tr (data_file rq) (chunk_number rq) (data_file_name rq) (dataset_id rq) pw"

fun loop_requests ::
  "string \<Rightarrow> string \<Rightarrow> string \<Rightarrow> int \<Rightarrow> string list \<times> int \<Rightarrow> string list list
     \<Rightarrow> (string list \<times> int) \<times> upload_request list" where
  "loop_requests hs file_name did rows_per_chunk (rows, cnumber) [] = ((rows, cnumber), [])"
| "loop_requests hs file_name did rows_per_chunk (rows, cnumber) (row # rest) =
     (let rows1 = rows @ [quoted_row row]
      in if int (length rows1) = rows_per_chunk
         then (let (s, reqs) = loop_requests hs file_name did rows_per_chunk ([], cnumber + 1) rest
               in (s, \<lparr>data_file_name = file_name, data_file = chunk_data hs rows1,
                        dataset_id = did, chunk_number = cnumber + 1\<rparr> # reqs))
         else loop_requests hs file_name did rows_per_chunk (rows1, cnumber) rest)"

definition chunk_request :: "string \<Rightarrow> string \<Rightarrow> string \<Rightarrow> nat \<Rightarrow> string list \<Rightarrow> nat \<Rightarrow> upload_request" where
  "chunk_request hs file_name did k rows i =
     \<lparr>data_file_name = file_name, data_file = chunk_data hs (take k (drop (i * k) rows)),
      dataset_id = did, chunk_number = int i + 1\<rparr>"

definition upload_requests :: "string \<Rightarrow> string \<Rightarrow> string \<Rightarrow> int \<Rightarrow> string list list \<Rightarrow> upload_request list" where
  "upload_requests hs file_name did rows_per_chunk data =
     (case loop_requests hs file_name did rows_per_chunk ([], 0) data of
        ((rows, cnumber), reqs) \<Rightarrow>
          reqs @ (if rows \<noteq> []
                  then [\<lparr>data_file_name = file_name, data_file = chunk_data hs rows,
                         dataset_id = did, chunk_number = cnumber + 1\<rparr>]
                  else []))"

text \<open>
  A line holds one whole record when the reader, started afresh on it, is back at the
  start of a record at its end: the line does not end inside a quoted field.
\<close>

definition line_is_record :: "string \<Rightarrow> bool" where
  "line_is_record l =
     (case process_line parse_reset l of
        Inl e \<Rightarrow> False
      | Inr r \<Rightarrow> rstate r = START_RECORD)"

definition record_of_line :: "string \<Rightarrow> string list" where
  "record_of_line l =
     (case process_line parse_reset l of
        Inl e \<Rightarrow> []
      | Inr r \<Rightarrow> rfields r)"

section \<open>Header composition leaves the base headers alone\<close>

lemma popuate_headers_result:
  assumes "headers_ref self < length st"
  shows "popuate_headers_with_api_key env self api_key st =
           (length st,
            st @ [(st ! headers_ref self)(X_API_KEY \<mapsto>
                    (if env BAGEL_API_KEY \<noteq> None \<and> api_key = None
                     then env BAGEL_API_KEY else api_key))])"
  using assms
  by (simp add: popuate_headers_with_api_key_def dict_copy_def dict_setitem_def
      nth_append)

text \<open>
  C10. A call of the api-key helper returns a reference to a new dictionary and leaves
  every dictionary that existed before the call as it was, the base headers among them;
  a later call therefore builds its headers from the same base headers, whatever key the
  earlier call added to its own copy.
\<close>

theorem popuate_headers_keeps_base:
  assumes "headers_ref self < length st"
    and "popuate_headers_with_api_key env self k1 st = (h1, st1)"
    and "popuate_headers_with_api_key env self k2 st1 = (h2, st2)"
  shows "h1 \<noteq> headers_ref self \<and> h2 \<noteq> headers_ref self \<and> h1 \<noteq> h2
       \<and> st1 ! headers_ref self = st ! headers_ref self
       \<and> st2 ! headers_ref self = st ! headers_ref self
       \<and> take (length st) st1 = st \<and> take (length st) st2 = st
       \<and> st2 ! h2 = (st ! headers_ref self)(X_API_KEY \<mapsto>
                       (if env BAGEL_API_KEY \<noteq> None \<and> k2 = None
                        then env BAGEL_API_KEY else k2))"
proof -
  let ?b = "headers_ref self"
  let ?key = "\<lambda>k. if env BAGEL_API_KEY \<noteq> None \<and> k = None then env BAGEL_API_KEY else k"
  have r1: "h1 = length st" "st1 = st @ [(st ! ?b)(X_API_KEY \<mapsto> ?key k1)]"
    using assms(2) popuate_headers_result [OF assms(1), of env k1] by simp_all
  have b1: "?b < length st1" using assms(1) r1 by simp
  have base1: "st1 ! ?b = st ! ?b" using assms(1) r1 by (simp add: nth_append)
  have r2: "h2 = length st1" "st2 = st1 @ [(st1 ! ?b)(X_API_KEY \<mapsto> ?key k2)]"
    using assms(3) popuate_headers_result [OF b1, of env k2] by simp_all
  have base2: "st2 ! ?b = st ! ?b" using b1 base1 r2 by (simp add: nth_append)
  have new2: "st2 ! h2 = (st ! ?b)(X_API_KEY \<mapsto> ?key k2)"
    using r2 base1 by simp
  show ?thesis
    using assms(1) r1 r2 base1 base2 new2 by (simp add: nth_append)
qed

theorem popuate_headers_keeps_base_witness:
  "headers_ref \<lparr>headers_ref = 0, api_url = ''http://h/api/v1''\<rparr>
     < length [[''bagel_source'' \<mapsto> Some ''sdk'']]
   \<and> popuate_headers_with_api_key (Map.empty(BAGEL_API_KEY \<mapsto> ''env-key''))
         \<lparr>headers_ref = 0, api_url = ''http://h/api/v1''\<rparr> (Some ''k1'')
         [[''bagel_source'' \<mapsto> Some ''sdk'']]
       = (1, [[''bagel_source'' \<mapsto> Some ''sdk''],
              [''bagel_source'' \<mapsto> Some ''sdk'', X_API_KEY \<mapsto> Some ''k1'']])
   \<and> popuate_headers_with_api_key (Map.empty(BAGEL_API_KEY \<mapsto> ''env-key''))
         \<lparr>headers_ref = 0, api_url = ''http://h/api/v1''\<rparr> None
         [[''bagel_source'' \<mapsto> Some ''sdk''],
          [''bagel_source'' \<mapsto> Some ''sdk'', X_API_KEY \<mapsto> Some ''k1'']]
       = (2, [[''bagel_source'' \<mapsto> Some ''sdk''],
              [''bagel_source'' \<mapsto> Some ''sdk'', X_API_KEY \<mapsto> Some ''k1''],
              [''bagel_source'' \<mapsto> Some ''sdk'', X_API_KEY \<mapsto> Some ''env-key'']])
   \<and> ([[''bagel_source'' \<mapsto> Some ''sdk''],
        [''bagel_source'' \<mapsto> Some ''sdk'', X_API_KEY \<mapsto> Some ''k1''],
        [''bagel_source'' \<mapsto> Some ''sdk'', X_API_KEY \<mapsto> Some ''env-key'']] ! 0)
       = [''bagel_source'' \<mapsto> Some ''sdk'']"
proof -
  let ?self = "\<lparr>headers_ref = 0, api_url = ''http://h/api/v1''\<rparr>"
  let ?env = "Map.empty(BAGEL_API_KEY \<mapsto> ''env-key'')"
  let ?st = "[[''bagel_source'' \<mapsto> Some ''sdk'']] :: store"
  let ?st1 = "?st @ [[''bagel_source'' \<mapsto> Some ''sdk'', X_API_KEY \<mapsto> Some ''k1'']]"
  let ?st2 = "?st1 @ [[''bagel_source'' \<mapsto> Some ''sdk'', X_API_KEY \<mapsto> Some ''env-key'']]"
  have b: "headers_ref ?self < length ?st" by simp
  have c1: "popuate_headers_with_api_key ?env ?self (Some ''k1'') ?st = (1, ?st1)"
    by (simp add: popuate_headers_with_api_key_def dict_copy_def dict_setitem_def)
  have c2: "popuate_headers_with_api_key ?env ?self None ?st1 = (2, ?st2)"
    by (simp add: popuate_headers_with_api_key_def dict_copy_def dict_setitem_def)
  from popuate_headers_keeps_base [OF b c1 c2]
  have "?st2 ! headers_ref ?self = ?st ! headers_ref ?self" by blast
  with b c1 c2 show ?thesis by simp
qed

section \<open>The retry bound of the query call\<close>

lemma range0_max_retries: "range0 max_retries = [0, 1, 2]"
  by (simp add: range0_def max_retries_def upt_rec)

lemma query_attempts_fail_fail:
  assumes "\<not> ok (tr (posts w) rq)" and "\<not> ok (tr (posts w + 1) rq)"
  shows "query_attempts tr rq [0, 1, 2] (None, w) =
           (Some (tr (posts w + 2) rq),
            w\<lparr>posts := posts w + 3, sleeps := sleeps w @ [retry_delay, retry_delay]\<rparr>)"
  using assms by (simp add: Let_def max_retries_def)

lemma raise_bagel_error_ok: "ok r \<Longrightarrow> raise_bagel_error et r = None"
  by (simp add: raise_bagel_error_def)

lemma raise_bagel_error_not_ok:
  assumes "\<not> ok r"
  shows "raise_bagel_error et r = Some (GenericError (resp_text r))
       \<or> (\<exists>body code message. resp_json r = Some body \<and> body ''error'' = Some (JStr code)
             \<and> et code \<and> body ''message'' = Some message
             \<and> raise_bagel_error et r = Some (BagelError code message))"
  using assms
  by (auto simp: raise_bagel_error_def ok_def Let_def
      split: option.splits jval.splits)

lemma query_attempts_bound:
  "\<exists>r w1. query_attempts tr rq [0, 1, 2] (None, w) = (Some r, w1)
      \<and> posts w < posts w1 \<and> posts w1 \<le> posts w + 3
      \<and> length (sleeps w1) \<le> length (sleeps w) + 2"
  by (simp add: Let_def max_retries_def)

text \<open>
  C4. The query call sends at least one and at most three requests and sleeps at most
  twice. When the first two responses are failures and the third is a success, it returns
  the result parsed from the third response, having slept exactly twice, each time for the
  fixed delay. When all three responses are failures it sends no fourth request, has slept
  twice, and raises the error translated from the third response: the typed error of the
  code in its body when the code is known, otherwise the generic error carrying its text.
\<close>

theorem query_retry_bound:
  assumes "popuate_headers_with_api_key env self api_key st = (h, st1)"
    and "rq = query_request self cluster_id payload (st1 ! h)"
    and "r1 = tr (posts w) rq" and "r2 = tr (posts w + 1) rq" and "r3 = tr (posts w + 2) rq"
    and "w3 = w\<lparr>posts := posts w + 3, sleeps := sleeps w @ [retry_delay, retry_delay]\<rparr>"
    and "result = query et tr env self cluster_id payload api_key (st, w)"
  shows "posts w < posts (snd (snd result)) \<and> posts (snd (snd result)) \<le> posts w + 3
       \<and> length (sleeps (snd (snd result))) \<le> length (sleeps w) + 2
       \<and> (\<not> ok r1 \<and> \<not> ok r2 \<and> ok r3 \<longrightarrow> result = (query_result_of r3, st1, w3))
       \<and> (\<not> ok r1 \<and> \<not> ok r2 \<and> \<not> ok r3 \<longrightarrow>
            (\<exists>e. result = (Inl e, st1, w3)
               \<and> raise_bagel_error et r3 = Some e
               \<and> (e = GenericError (resp_text r3)
                  \<or> (\<exists>body code message. resp_json r3 = Some body
                        \<and> body ''error'' = Some (JStr code) \<and> et code
                        \<and> body ''message'' = Some message
                        \<and> e = BagelError code message))))"
proof -
  from query_attempts_bound [of tr rq w]
  obtain r w1 where b: "query_attempts tr rq [0, 1, 2] (None, w) = (Some r, w1)"
      "posts w < posts w1" "posts w1 \<le> posts w + 3"
      "length (sleeps w1) \<le> length (sleeps w) + 2"
    by blast
  have "snd (snd result) = w1"
    using b(1) assms(1,2,7)
    by (simp add: query_def range0_max_retries split: option.splits)
  then have bound: "posts w < posts (snd (snd result)) \<and> posts (snd (snd result)) \<le> posts w + 3
       \<and> length (sleeps (snd (snd result))) \<le> length (sleeps w) + 2"
    using b(2,3,4) by simp
  have q: "result = (case raise_bagel_error et r3 of
                Some e \<Rightarrow> (Inl e, st1, w3)
              | None \<Rightarrow> (query_result_of r3, st1, w3))"
    if "\<not> ok r1" "\<not> ok r2"
  proof -
    have "query_attempts tr rq (range0 max_retries) (None, w) = (Some r3, w3)"
      unfolding range0_max_retries
      using query_attempts_fail_fail [of tr w rq] that assms(3,4,5,6) by simp
    then show ?thesis using assms(1,2,7) by (simp add: query_def)
  qed
  have good: "result = (query_result_of r3, st1, w3)" if "\<not> ok r1 \<and> \<not> ok r2 \<and> ok r3"
    using q that by (simp add: raise_bagel_error_ok)
  have bad: "\<exists>e. result = (Inl e, st1, w3)
               \<and> raise_bagel_error et r3 = Some e
               \<and> (e = GenericError (resp_text r3)
                  \<or> (\<exists>body code message. resp_json r3 = Some body
                        \<and> body ''error'' = Some (JStr code) \<and> et code
                        \<and> body ''message'' = Some message
                        \<and> e = BagelError code message))"
    if "\<not> ok r1 \<and> \<not> ok r2 \<and> \<not> ok r3"
  proof -
    from that have n: "\<not> ok r3" by simp
    from raise_bagel_error_not_ok [OF n, of et] show ?thesis
      using q that by auto
  qed
  show ?thesis using bound good bad by blast
qed

theorem query_retry_bound_witness:
  "query (\<lambda>c. c = ''NotFound'')
     (\<lambda>n rq. if n < 2
              then \<lparr>status_code = 503, resp_text = ''busy'', resp_json = None\<rparr>
              else \<lparr>status_code = 200, resp_text = ''{}'',
                    resp_json = Some [''ids'' \<mapsto> JOther ''[[7]]'']\<rparr>)
     Map.empty \<lparr>headers_ref = 0, api_url = ''http://h/api/v1''\<rparr> ''c1'' () None
     ([[''bagel_source'' \<mapsto> Some ''sdk'']], \<lparr>posts = 0, sleeps = []\<rparr>)
   = (Inr \<lparr>ids = JOther ''[[7]]'', distances = None, embeddings = None,
            metadatas = None, documents = None\<rparr>,
      [[''bagel_source'' \<mapsto> Some ''sdk''],
       [''bagel_source'' \<mapsto> Some ''sdk'', X_API_KEY \<mapsto> None]],
      \<lparr>posts = 3, sleeps = [1, 1]\<rparr>)
   \<and> query (\<lambda>c. c = ''NotFound'')
     (\<lambda>n rq. if n < 2
              then \<lparr>status_code = 503, resp_text = ''busy'', resp_json = None\<rparr>
              else \<lparr>status_code = 404, resp_text = ''{}'',
                    resp_json = Some [''error'' \<mapsto> JStr ''NotFound'',
                                      ''message'' \<mapsto> JStr ''gone'']\<rparr>)
     Map.empty \<lparr>headers_ref = 0, api_url = ''http://h/api/v1''\<rparr> ''c1'' () None
     ([[''bagel_source'' \<mapsto> Some ''sdk'']], \<lparr>posts = 0, sleeps = []\<rparr>)
   = (Inl (BagelError ''NotFound'' (JStr ''gone'')),
      [[''bagel_source'' \<mapsto> Some ''sdk''],
       [''bagel_source'' \<mapsto> Some ''sdk'', X_API_KEY \<mapsto> None]],
      \<lparr>posts = 3, sleeps = [1, 1]\<rparr>)"
proof -
  let ?self = "\<lparr>headers_ref = 0, api_url = ''http://h/api/v1''\<rparr>"
  let ?st = "[[''bagel_source'' \<mapsto> Some ''sdk'']] :: store"
  let ?st1 = "?st @ [[''bagel_source'' \<mapsto> Some ''sdk'', X_API_KEY \<mapsto> None]]"
  let ?w = "\<lparr>posts = 0, sleeps = []\<rparr>"
  let ?busy = "\<lparr>status_code = 503, resp_text = ''busy'', resp_json = None\<rparr>"
  let ?good = "\<lparr>status_code = 200, resp_text = ''{}'',
                 resp_json = Some [''ids'' \<mapsto> JOther ''[[7]]'']\<rparr>"
  let ?bad = "\<lparr>status_code = 404, resp_text = ''{}'',
                resp_json = Some [''error'' \<mapsto> JStr ''NotFound'',
                                  ''message'' \<mapsto> JStr ''gone'']\<rparr>"
  let ?tr1 = "\<lambda>(n::nat) (rq::unit request). if n < 2 then ?busy else ?good"
  let ?tr2 = "\<lambda>(n::nat) (rq::unit request). if n < 2 then ?busy else ?bad"
  let ?rq = "query_request ?self ''c1'' () (?st1 ! 1)"
  have c: "popuate_headers_with_api_key Map.empty ?self None ?st = (1, ?st1)"
    by (simp add: popuate_headers_with_api_key_def dict_copy_def dict_setitem_def)
  have busy: "\<not> ok ?busy" by (simp add: ok_def raise_for_status_def)
  have good: "ok ?good" by (simp add: ok_def raise_for_status_def)
  have bad: "\<not> ok ?bad" by (simp add: ok_def raise_for_status_def)
  have s1: "query (\<lambda>c. c = ''NotFound'') ?tr1 Map.empty ?self ''c1'' () None (?st, ?w)
              = (query_result_of ?good, ?st1, \<lparr>posts = 3, sleeps = [1, 1]\<rparr>)"
    using query_retry_bound [where cluster_id = "''c1''" and payload = "()" and tr = ?tr1
        and et = "\<lambda>c. c = ''NotFound''" and w = ?w, OF c refl refl refl refl refl refl]
      busy good
    by (simp add: retry_delay_def)
  obtain e where e:
      "query (\<lambda>c. c = ''NotFound'') ?tr2 Map.empty ?self ''c1'' () None (?st, ?w)
         = (Inl e, ?st1, \<lparr>posts = 3, sleeps = [1, 1]\<rparr>)"
      "raise_bagel_error (\<lambda>c. c = ''NotFound'') ?bad = Some e"
    using query_retry_bound [where cluster_id = "''c1''" and payload = "()" and tr = ?tr2
        and et = "\<lambda>c. c = ''NotFound''" and w = ?w, OF c refl refl refl refl refl refl]
      busy bad
    by (auto simp: retry_delay_def)
  have "raise_bagel_error (\<lambda>c. c = ''NotFound'') ?bad
          = Some (BagelError ''NotFound'' (JStr ''gone''))"
    by (simp add: raise_bagel_error_def ok_def raise_for_status_def)
  with e have s2: "query (\<lambda>c. c = ''NotFound'') ?tr2 Map.empty ?self ''c1'' () None (?st, ?w)
         = (Inl (BagelError ''NotFound'' (JStr ''gone'')), ?st1, \<lparr>posts = 3, sleeps = [1, 1]\<rparr>)"
    by simp
  have r: "query_result_of ?good = Inr \<lparr>ids = JOther ''[[7]]'', distances = None,
             embeddings = None, metadatas = None, documents = None\<rparr>"
    by (simp add: query_result_of_def)
  show ?thesis using s1 s2 r by simp
qed

section \<open>The download pipeline: order and failure\<close>

lemma download_chunks_all_ok:
  assumes "\<forall>c \<in> set cs. raise_for_status (tr (DownloadDataset did c)) = None
             \<and> rd (resp_text (tr (DownloadDataset did c))) = Inr (df c)"
  shows "download_chunks rd tr did cs (dfs, reqs) =
           (Inr (dfs @ map df cs), reqs @ map (DownloadDataset did) cs)"
  using assms
  by (induction cs arbitrary: dfs reqs) (simp_all add: Let_def)

lemma download_chunks_stops:
  assumes "j \<in> set cs" and "raise_for_status (tr (DownloadDataset did j)) \<noteq> None"
  shows "\<exists>e pre suf. cs = pre @ suf \<and> pre \<noteq> [] \<and> j \<notin> set (butlast pre)
           \<and> download_chunks rd tr did cs (dfs, reqs) =
               (Inl e, reqs @ map (DownloadDataset did) pre)"
  using assms
proof (induction cs arbitrary: dfs reqs)
  case Nil
  then show ?case by simp
next
  case (Cons c cs)
  let ?resp = "tr (DownloadDataset did c)"
  show ?case
  proof (cases "raise_for_status ?resp")
    case (Some e)
    then have "download_chunks rd tr did (c # cs) (dfs, reqs) =
                 (Inl e, reqs @ map (DownloadDataset did) [c])"
      by (simp add: Let_def)
    then show ?thesis by (intro exI [of _ e] exI [of _ "[c]"] exI [of _ cs]) simp
  next
    case None
    with Cons.prems have jc: "j \<noteq> c" "j \<in> set cs" by auto
    show ?thesis
    proof (cases "rd (resp_text ?resp)")
      case (Inl e)
      with None have "download_chunks rd tr did (c # cs) (dfs, reqs) =
                 (Inl e, reqs @ map (DownloadDataset did) [c])"
        by (simp add: Let_def)
      then show ?thesis by (intro exI [of _ e] exI [of _ "[c]"] exI [of _ cs]) simp
    next
      case (Inr df)
      from Cons.IH [OF jc(2) Cons.prems(2), of "dfs @ [df]" "reqs @ [DownloadDataset did c]"]
      obtain e pre suf where p: "cs = pre @ suf" "pre \<noteq> []" "j \<notin> set (butlast pre)"
        "download_chunks rd tr did cs (dfs @ [df], reqs @ [DownloadDataset did c]) =
           (Inl e, (reqs @ [DownloadDataset did c]) @ map (DownloadDataset did) pre)"
        by blast
      have "download_chunks rd tr did (c # cs) (dfs, reqs) =
              (Inl e, reqs @ map (DownloadDataset did) (c # pre))"
        using None Inr p(4) by (simp add: Let_def)
      moreover have "c # cs = (c # pre) @ suf" "c # pre \<noteq> []" "j \<notin> set (butlast (c # pre))"
        using p jc by simp_all
      ultimately show ?thesis by blast
    qed
  qed
qed

lemma upto_prefix:
  assumes "[1 .. n] = pre @ suf"
  shows "pre = [1 .. int (length pre)]"
proof (rule nth_equalityI)
  have l: "length pre \<le> length [1 .. n]" using assms by simp
  then show "length pre = length [1 .. int (length pre)]" by simp
  fix i assume i: "i < length pre"
  then have "pre ! i = [1 .. n] ! i" using assms by (simp add: nth_append)
  also have "\<dots> = 1 + int i" using i l by (simp add: nth_upto)
  also have "\<dots> = [1 .. int (length pre)] ! i" using i by (simp add: nth_upto)
  finally show "pre ! i = [1 .. int (length pre)] ! i" .
qed


lemma upto_1_2: "[1 .. 2] = [1, 2 :: int]"
  by (simp add: upto.simps)

text \<open>
  C5, as amended. When the metadata call succeeds and reports \<open>total_chunks = N\<close>, and
  each of the chunk requests 1 to N succeeds with a payload that \<open>read_csv\<close> can parse,
  \<open>load_dataset\<close> issues exactly the chunk requests 1, 2, ..., N in this order and returns
  \<open>pd.concat\<close> of the decoded fragments in this order; for \<open>N\<close> below 1 it issues no
  chunk request and returns the empty frame.
\<close>

theorem load_dataset_in_order:
  assumes "popuate_headers_with_api_key env self None st = (h, st1)"
    and "raise_for_status (tr (DatasetInfo did)) = None"
    and "total_chunks_of (tr (DatasetInfo did)) = Inr N"
    and "\<forall>c \<in> set [1 .. N]. raise_for_status (tr (DownloadDataset did c)) = None
           \<and> rd (resp_text (tr (DownloadDataset did c))) = Inr (df c)"
  shows "load_dataset rd cat empty_df tr env self did (st, reqs) =
           (Inr (if 1 \<le> N then cat (map df [1 .. N]) else empty_df), st1,
            reqs @ DatasetInfo did # map (DownloadDataset did) [1 .. N])"
proof -
  have loop: "download_chunks rd tr did [1 .. N] ([], reqs @ [DatasetInfo did]) =
          (Inr (map df [1 .. N]), (reqs @ [DatasetInfo did]) @ map (DownloadDataset did) [1 .. N])"
    using download_chunks_all_ok [OF assms(4), of "[]" "reqs @ [DatasetInfo did]"] by simp
  have ne: "(map df [1 .. N] \<noteq> []) = (1 \<le> N)" by auto
  show ?thesis
    unfolding load_dataset_def using assms(1,2,3) loop ne by (simp add: Let_def)
qed

theorem load_dataset_in_order_witness:
  "load_dataset (read_csv token_frame) concat_frames empty_frame
     (\<lambda>r. case r of
             DatasetInfo d \<Rightarrow> \<lparr>status_code = 200, resp_text = [],
                                resp_json = Some [''total_chunks'' \<mapsto> JInt 2]\<rparr>
           | DownloadDataset d c \<Rightarrow> \<lparr>status_code = 200,
                                resp_text = encode [''a''] [[if c = 1 then ''x'' else ''y'']],
                                resp_json = None\<rparr>)
     Map.empty \<lparr>headers_ref = 0, api_url = ''http://h/api/v1''\<rparr> ''ds''
     ([[''bagel_source'' \<mapsto> Some ''sdk'']], [])
   = (Inr ([''a''], [[''x''], [''y'']]),
      [[''bagel_source'' \<mapsto> Some ''sdk''],
       [''bagel_source'' \<mapsto> Some ''sdk'', X_API_KEY \<mapsto> None]],
      [DatasetInfo ''ds'', DownloadDataset ''ds'' 1, DownloadDataset ''ds'' 2])"
proof -
  let ?self = "\<lparr>headers_ref = 0, api_url = ''http://h/api/v1''\<rparr>"
  let ?st = "[[''bagel_source'' \<mapsto> Some ''sdk'']] :: store"
  let ?st1 = "?st @ [[''bagel_source'' \<mapsto> Some ''sdk'', X_API_KEY \<mapsto> None]]"
  let ?tr = "\<lambda>r. case r of
             DatasetInfo d \<Rightarrow> \<lparr>status_code = 200, resp_text = [],
                                resp_json = Some [''total_chunks'' \<mapsto> JInt 2]\<rparr>
           | DownloadDataset d c \<Rightarrow> \<lparr>status_code = 200,
                                resp_text = encode [''a''] [[if c = 1 then ''x'' else ''y'']],
                                resp_json = None\<rparr>"
  let ?df = "\<lambda>c::int. ([''a''], [[if c = 1 then ''x'' else ''y'']])"
  have c: "popuate_headers_with_api_key Map.empty ?self None ?st = (1, ?st1)"
    by (simp add: popuate_headers_with_api_key_def dict_copy_def dict_setitem_def)
  have i1: "raise_for_status (?tr (DatasetInfo ''ds'')) = None"
    by (simp add: raise_for_status_def)
  have i2: "total_chunks_of (?tr (DatasetInfo ''ds'')) = Inr 2"
    by (simp add: total_chunks_of_def)
  have d1: "read_csv token_frame (encode [''a''] [[''x'']]) = Inr ([''a''], [[''x'']])" by code_simp
  have d2: "read_csv token_frame (encode [''a''] [[''y'']]) = Inr ([''a''], [[''y'']])" by code_simp
  have ch: "\<forall>c \<in> set [1 .. 2]. raise_for_status (?tr (DownloadDataset ''ds'' c)) = None
           \<and> read_csv token_frame (resp_text (?tr (DownloadDataset ''ds'' c))) = Inr (?df c)"
    using d1 d2 by (simp add: raise_for_status_def upto_1_2)
  have "concat_frames (map ?df [1 .. 2]) = ([''a''], [[''x''], [''y'']])"
    by (simp add: concat_frames_def upto_1_2)
  then show ?thesis
    using load_dataset_in_order [where rd = "read_csv token_frame" and cat = concat_frames
        and empty_df = empty_frame and tr = ?tr and df = ?df and reqs = "[]" and did = "''ds''",
        OF c i1 i2 ch]
    by (simp add: upto_1_2)
qed

text \<open>
  C5 as stated does not hold: a chunk request can succeed with a payload that cannot be
  parsed. With two chunks announced and an empty body in a 200 response, \<open>read_csv\<close>
  raises (no columns to parse), \<open>load_dataset\<close> raises with it, and the second chunk is
  never requested.
\<close>

theorem load_dataset_undecodable_chunk_counterexample:
  "raise_for_status \<lparr>status_code = 200, resp_text = [], resp_json = None\<rparr> = None
   \<and> load_dataset (read_csv token_frame) concat_frames empty_frame
     (\<lambda>r. case r of
             DatasetInfo d \<Rightarrow> \<lparr>status_code = 200, resp_text = [],
                                resp_json = Some [''total_chunks'' \<mapsto> JInt 2]\<rparr>
           | DownloadDataset d c \<Rightarrow> \<lparr>status_code = 200, resp_text = [], resp_json = None\<rparr>)
     Map.empty \<lparr>headers_ref = 0, api_url = ''http://h/api/v1''\<rparr> ''ds''
     ([[''bagel_source'' \<mapsto> Some ''sdk'']], [])
   = (Inl EmptyDataError,
      [[''bagel_source'' \<mapsto> Some ''sdk''],
       [''bagel_source'' \<mapsto> Some ''sdk'', X_API_KEY \<mapsto> None]],
      [DatasetInfo ''ds'', DownloadDataset ''ds'' 1])"
proof -
  have "read_csv token_frame [] = Inl EmptyDataError"
    by (simp add: read_csv_def tokenize_def handle_eof_def parser_init_def)
  then show ?thesis
    by (simp add: load_dataset_def popuate_headers_with_api_key_def dict_copy_def
        dict_setitem_def raise_for_status_def total_chunks_of_def Let_def upto_1_2)
qed

text \<open>
  C6. \<open>load_dataset\<close> is all-or-nothing. When the metadata call fails, the operation
  raises that error and no chunk is requested. When the request of some chunk \<open>j\<close> of
  1 to \<open>total_chunks\<close> fails, the operation raises an error instead of returning a
  table, and the chunk requests it has issued are 1, ..., m for some \<open>m \<le> j\<close>: none
  after the failing one.
\<close>

theorem load_dataset_all_or_nothing:
  assumes "popuate_headers_with_api_key env self None st = (h, st1)"
  shows "(\<forall>e. raise_for_status (tr (DatasetInfo did)) = Some e \<longrightarrow>
            load_dataset rd cat empty_df tr env self did (st, reqs)
              = (Inl e, st1, reqs @ [DatasetInfo did]))
       \<and> (\<forall>N j. raise_for_status (tr (DatasetInfo did)) = None
              \<and> total_chunks_of (tr (DatasetInfo did)) = Inr N
              \<and> 1 \<le> j \<and> j \<le> N
              \<and> raise_for_status (tr (DownloadDataset did j)) \<noteq> None \<longrightarrow>
            (\<exists>e m. 1 \<le> m \<and> m \<le> j
               \<and> load_dataset rd cat empty_df tr env self did (st, reqs)
                   = (Inl e, st1, reqs @ DatasetInfo did # map (DownloadDataset did) [1 .. m])))"
proof (intro conjI allI impI)
  fix e assume "raise_for_status (tr (DatasetInfo did)) = Some e"
  then show "load_dataset rd cat empty_df tr env self did (st, reqs)
              = (Inl e, st1, reqs @ [DatasetInfo did])"
    using assms by (simp add: load_dataset_def Let_def)
next
  fix N j
  assume a: "raise_for_status (tr (DatasetInfo did)) = None
              \<and> total_chunks_of (tr (DatasetInfo did)) = Inr N
              \<and> 1 \<le> j \<and> j \<le> N
              \<and> raise_for_status (tr (DownloadDataset did j)) \<noteq> None"
  then have jin: "j \<in> set [1 .. N]" by simp
  from download_chunks_stops [OF jin, of tr did rd "[]" "reqs @ [DatasetInfo did]"] a
  obtain e pre suf where p: "[1 .. N] = pre @ suf" "pre \<noteq> []" "j \<notin> set (butlast pre)"
      "download_chunks rd tr did [1 .. N] ([], reqs @ [DatasetInfo did]) =
         (Inl e, (reqs @ [DatasetInfo did]) @ map (DownloadDataset did) pre)"
    by blast
  let ?m = "int (length pre)"
  have pre: "pre = [1 .. ?m]" using upto_prefix [OF p(1)] .
  have m1: "1 \<le> ?m" using p(2) by (cases pre) simp_all
  have "butlast pre = [1 .. ?m - 1]"
  proof -
    have "[1 .. ?m] = [1 .. ?m - 1] @ [?m]" using m1 by (simp add: upto_rec2)
    then have "butlast [1 .. ?m] = [1 .. ?m - 1]" by simp
    then show ?thesis using pre by simp
  qed
  with p(3) a have mj: "?m \<le> j" by auto
  have "load_dataset rd cat empty_df tr env self did (st, reqs)
          = (Inl e, st1, reqs @ DatasetInfo did # map (DownloadDataset did) [1 .. ?m])"
    unfolding load_dataset_def using assms a p(4) pre by (simp add: Let_def)
  with m1 mj show "\<exists>e m. 1 \<le> m \<and> m \<le> j
               \<and> load_dataset rd cat empty_df tr env self did (st, reqs)
                   = (Inl e, st1, reqs @ DatasetInfo did # map (DownloadDataset did) [1 .. m])"
    by blast
qed

theorem load_dataset_all_or_nothing_witness:
  "load_dataset (read_csv token_frame) concat_frames empty_frame
     (\<lambda>r. \<lparr>status_code = 500, resp_text = ''down'', resp_json = None\<rparr>)
     Map.empty \<lparr>headers_ref = 0, api_url = ''http://h/api/v1''\<rparr> ''ds''
     ([[''bagel_source'' \<mapsto> Some ''sdk'']], [])
   = (Inl (HTTPError 500),
      [[''bagel_source'' \<mapsto> Some ''sdk''],
       [''bagel_source'' \<mapsto> Some ''sdk'', X_API_KEY \<mapsto> None]],
      [DatasetInfo ''ds''])
   \<and> (\<exists>e m. 1 \<le> m \<and> m \<le> 2
        \<and> load_dataset (read_csv token_frame) concat_frames empty_frame
             (\<lambda>r. case r of
                DatasetInfo d \<Rightarrow> \<lparr>status_code = 200, resp_text = [],
                                   resp_json = Some [''total_chunks'' \<mapsto> JInt 3]\<rparr>
              | DownloadDataset d c \<Rightarrow>
                  \<lparr>status_code = (if c = 2 then 404 else 200),
                   resp_text = encode [''a''] [[''x'']], resp_json = None\<rparr>)
             Map.empty \<lparr>headers_ref = 0, api_url = ''http://h/api/v1''\<rparr> ''ds''
             ([[''bagel_source'' \<mapsto> Some ''sdk'']], [])
           = (Inl e,
              [[''bagel_source'' \<mapsto> Some ''sdk''],
               [''bagel_source'' \<mapsto> Some ''sdk'', X_API_KEY \<mapsto> None]],
              [] @ DatasetInfo ''ds'' # map (DownloadDataset ''ds'') [1 .. m]))"
proof -
  let ?self = "\<lparr>headers_ref = 0, api_url = ''http://h/api/v1''\<rparr>"
  let ?st = "[[''bagel_source'' \<mapsto> Some ''sdk'']] :: store"
  let ?st1 = "?st @ [[''bagel_source'' \<mapsto> Some ''sdk'', X_API_KEY \<mapsto> None]]"
  let ?down = "\<lambda>r::get_request. \<lparr>status_code = 500, resp_text = ''down'', resp_json = None\<rparr>"
  let ?tr = "\<lambda>r. case r of
                DatasetInfo d \<Rightarrow> \<lparr>status_code = 200, resp_text = [],
                                   resp_json = Some [''total_chunks'' \<mapsto> JInt 3]\<rparr>
              | DownloadDataset d c \<Rightarrow>
                  \<lparr>status_code = (if c = 2 then 404 else 200),
                   resp_text = encode [''a''] [[''x'']], resp_json = None\<rparr>"
  have c: "popuate_headers_with_api_key Map.empty ?self None ?st = (1, ?st1)"
    by (simp add: popuate_headers_with_api_key_def dict_copy_def dict_setitem_def)
  note t1 = load_dataset_all_or_nothing [where rd = "read_csv token_frame" and cat = concat_frames
        and empty_df = empty_frame and tr = ?down and reqs = "[]" and did = "''ds''", OF c]
  note t2 = load_dataset_all_or_nothing [where rd = "read_csv token_frame" and cat = concat_frames
        and empty_df = empty_frame and tr = ?tr and reqs = "[]" and did = "''ds''", OF c]
  have f1: "raise_for_status (?down (DatasetInfo ''ds'')) = Some (HTTPError 500)"
    by (simp add: raise_for_status_def)
  have f2: "raise_for_status (?tr (DatasetInfo ''ds'')) = None
              \<and> total_chunks_of (?tr (DatasetInfo ''ds'')) = Inr 3
              \<and> (1::int) \<le> 2 \<and> (2::int) \<le> 3
              \<and> raise_for_status (?tr (DownloadDataset ''ds'' 2)) \<noteq> None"
    by (simp add: raise_for_status_def total_chunks_of_def)
  from t1 f1 have a: "load_dataset (read_csv token_frame) concat_frames empty_frame ?down Map.empty ?self ''ds''
       (?st, []) = (Inl (HTTPError 500), ?st1, [] @ [DatasetInfo ''ds''])"
    by blast
  from t2 f2 have b: "\<exists>e m. 1 \<le> m \<and> m \<le> 2
        \<and> load_dataset (read_csv token_frame) concat_frames empty_frame ?tr Map.empty ?self ''ds'' (?st, [])
           = (Inl e, ?st1, [] @ DatasetInfo ''ds'' # map (DownloadDataset ''ds'') [1 .. m])"
    by blast
  show ?thesis using a b by simp
qed

section \<open>The chunk codec: round trip and bad lines\<close>

lemma chars_distinct:
  "quotechar \<noteq> LF" "quotechar \<noteq> CR" "quotechar \<noteq> delimiter"
  "delimiter \<noteq> LF" "delimiter \<noteq> CR" "\<not> is_whitespace quotechar"
  by (simp_all add: quotechar_def LF_def CR_def delimiter_def is_whitespace_def)

lemma end_line_keep:
  "end_line p = p\<lparr>plines := keep_line (plines p) (pline p), pline := []\<rparr>"
  by (simp add: end_line_def keep_line_def Let_def)

lemma str_replace_Cons:
  "str_replace c new (x # xs) = (if x = c then new else [x]) @ str_replace c new xs"
  by (simp add: str_replace_def)

lemma tok_quoted_body:
  assumes "pstate p = PD_IN_QUOTED_FIELD"
  shows "foldl tok_char p (str_replace quotechar [quotechar, quotechar] f)
           = p\<lparr>ptoken := ptoken p @ f\<rparr>"
  using assms
proof (induction f arbitrary: p)
  case Nil
  then show ?case by (simp add: str_replace_def)
next
  case (Cons c f)
  show ?case
  proof (cases "c = quotechar")
    case True
    have "foldl tok_char p [quotechar, quotechar] = p\<lparr>ptoken := ptoken p @ [quotechar]\<rparr>"
      using Cons.prems by (simp add: tok_char_def)
    moreover have "pstate (p\<lparr>ptoken := ptoken p @ [quotechar]\<rparr>) = PD_IN_QUOTED_FIELD"
      using Cons.prems by simp
    ultimately show ?thesis
      using True Cons.IH [of "p\<lparr>ptoken := ptoken p @ [quotechar]\<rparr>"]
      by (simp add: str_replace_Cons)
  next
    case False
    have "tok_char p c = p\<lparr>ptoken := ptoken p @ [c]\<rparr>"
      using Cons.prems False by (simp add: tok_char_def)
    moreover have "pstate (p\<lparr>ptoken := ptoken p @ [c]\<rparr>) = PD_IN_QUOTED_FIELD"
      using Cons.prems by simp
    ultimately show ?thesis
      using False Cons.IH [of "p\<lparr>ptoken := ptoken p @ [c]\<rparr>"]
      by (simp add: str_replace_Cons)
  qed
qed

lemma tok_quote_field:
  assumes "pstate p = PD_START_FIELD \<or> pstate p = PD_START_RECORD"
  shows "foldl tok_char p (quote_field f)
           = p\<lparr>ptoken := ptoken p @ f, pstate := PD_QUOTE_IN_QUOTED_FIELD\<rparr>"
proof -
  have open_q: "tok_char p quotechar = p\<lparr>pstate := PD_IN_QUOTED_FIELD\<rparr>"
    using assms chars_distinct
    by (auto simp: tok_char_def tok_start_record_def tok_start_field_def)
  have body: "foldl tok_char (p\<lparr>pstate := PD_IN_QUOTED_FIELD\<rparr>)
                (str_replace quotechar [quotechar, quotechar] f)
              = p\<lparr>pstate := PD_IN_QUOTED_FIELD, ptoken := ptoken p @ f\<rparr>"
    using tok_quoted_body [of "p\<lparr>pstate := PD_IN_QUOTED_FIELD\<rparr>" f] by simp
  have close_q: "tok_char (p\<lparr>pstate := PD_IN_QUOTED_FIELD, ptoken := ptoken p @ f\<rparr>) quotechar
              = p\<lparr>ptoken := ptoken p @ f, pstate := PD_QUOTE_IN_QUOTED_FIELD\<rparr>"
    by (simp add: tok_char_def)
  show ?thesis
    unfolding quote_field_def by (simp add: open_q body close_q)
qed

lemma tok_quoted_row:
  assumes "row \<noteq> []" and "pstate p = PD_START_FIELD \<or> pstate p = PD_START_RECORD"
    and "ptoken p = []"
  shows "foldl tok_char p (quoted_row row)
           = p\<lparr>pline := pline p @ butlast row, ptoken := last row,
                pstate := PD_QUOTE_IN_QUOTED_FIELD\<rparr>"
  using assms
proof (induction row arbitrary: p)
  case Nil
  then show ?case by simp
next
  case (Cons f row)
  show ?case
  proof (cases row)
    case Nil
    then show ?thesis
      using tok_quote_field [OF Cons.prems(2), of f] Cons.prems(3)
      by (simp add: quoted_row_def)
  next
    case (Cons g gs)
    let ?p1 = "p\<lparr>ptoken := ptoken p @ f, pstate := PD_QUOTE_IN_QUOTED_FIELD\<rparr>"
    let ?p2 = "p\<lparr>pline := pline p @ [f], ptoken := [], pstate := PD_START_FIELD\<rparr>"
    have s1: "foldl tok_char p (quote_field f) = ?p1"
      by (rule tok_quote_field [OF Cons.prems(2)])
    have s2: "tok_char ?p1 delimiter = ?p2"
      using chars_distinct Cons.prems(3) by (simp add: tok_char_def end_field_def)
    have s3: "foldl tok_char ?p2 (quoted_row row)
                = ?p2\<lparr>pline := pline ?p2 @ butlast row, ptoken := last row,
                      pstate := PD_QUOTE_IN_QUOTED_FIELD\<rparr>"
      using Cons.IH [of ?p2] Cons by simp
    have split: "quoted_row (f # row) = quote_field f @ [delimiter] @ quoted_row row"
      using Cons by (simp add: quoted_row_def)
    show ?thesis
      unfolding split using s1 s2 s3 Cons by simp
  qed
qed

lemma tok_row_line:
  assumes "row \<noteq> []"
  shows "foldl tok_char (at_start ls) (quoted_row row @ [LF]) = at_start (keep_line ls row)"
proof -
  let ?p = "(at_start ls)\<lparr>pline := butlast row, ptoken := last row,
                pstate := PD_QUOTE_IN_QUOTED_FIELD\<rparr>"
  have r: "foldl tok_char (at_start ls) (quoted_row row) = ?p"
    using tok_quoted_row [OF assms, of "at_start ls"] by (simp add: at_start_def)
  have "tok_char ?p LF = at_start (keep_line ls row)"
    using chars_distinct assms
    by (simp add: tok_char_def end_field_def end_line_keep at_start_def)
  then show ?thesis using r by simp
qed

lemma tok_row_line_app:
  assumes "row \<noteq> []"
  shows "foldl tok_char (at_start ls) ((quoted_row row @ [LF]) @ rest)
           = foldl tok_char (at_start (keep_line ls row)) rest"
proof -
  have "foldl tok_char (at_start ls) ((quoted_row row @ [LF]) @ rest)
          = foldl tok_char (foldl tok_char (at_start ls) (quoted_row row @ [LF])) rest"
    by (rule foldl_append)
  then show ?thesis unfolding tok_row_line [OF assms] .
qed

lemma tok_row_eof:
  assumes "row \<noteq> []"
  shows "\<exists>p. handle_eof (foldl tok_char (at_start ls) (quoted_row row)) = Inr p
           \<and> plines p = keep_line ls row"
proof -
  let ?p = "(at_start ls)\<lparr>pline := butlast row, ptoken := last row,
                pstate := PD_QUOTE_IN_QUOTED_FIELD\<rparr>"
  have r: "foldl tok_char (at_start ls) (quoted_row row) = ?p"
    using tok_quoted_row [OF assms, of "at_start ls"] by (simp add: at_start_def)
  show ?thesis
    unfolding r using assms
    by (simp add: handle_eof_def end_field_def end_line_keep at_start_def)
qed

lemma tok_rows:
  assumes "[] \<notin> set rows"
  shows "\<exists>p. handle_eof (foldl tok_char (at_start ls) (str_join [LF] (map quoted_row rows))) = Inr p
           \<and> plines p = foldl keep_line ls rows"
  using assms
proof (induction rows arbitrary: ls)
  case Nil
  then show ?case by (simp add: handle_eof_def at_start_def)
next
  case (Cons row rows)
  then have ne: "row \<noteq> []" by auto
  show ?case
  proof (cases rows)
    case Nil
    then show ?thesis using tok_row_eof [OF ne, of ls] by simp
  next
    case (Cons r2 rs)
    have split: "str_join [LF] (map quoted_row (row # rows))
                   = (quoted_row row @ [LF]) @ str_join [LF] (map quoted_row rows)"
      using Cons by simp
    have "[] \<notin> set rows" using Cons.prems \<open>[] \<notin> set (row # rows)\<close> by simp
    from Cons.IH [OF this, of "keep_line ls row"] show ?thesis
      unfolding split tok_row_line_app [OF ne] by simp
  qed
qed

lemma tokenize_encode:
  assumes "header \<noteq> []" and "[] \<notin> set rows"
  shows "\<exists>p. tokenize (encode header rows) = Inr p
             \<and> plines p = foldl keep_line [] (header # rows)"
proof -
  have init: "parser_init = at_start []" by (simp add: parser_init_def at_start_def)
  have split: "encode header rows
                 = (quoted_row header @ [LF]) @ str_join [LF] (map quoted_row rows)"
    by (simp add: encode_def chunk_data_def header_str_def quoted_row_def)
  from tok_rows [OF assms(2), of "keep_line [] header"]
  obtain p where p: "handle_eof (foldl tok_char (at_start (keep_line [] header))
                        (str_join [LF] (map quoted_row rows))) = Inr p"
      "plines p = foldl keep_line (keep_line [] header) rows"
    by blast
  have "tokenize (encode header rows) = Inr p"
    unfolding tokenize_def split init tok_row_line_app [OF assms(1)] using p(1) .
  then show ?thesis using p(2) by simp
qed

lemma read_csv_lines:
  assumes "tokenize s = Inr p" and "plines p = header # rows"
  shows "read_csv frame s = frame header rows"
  using assms by (simp add: read_csv_def)

text \<open>What \<open>read_csv\<close> returns is decided by the lines kept, whatever the frame stage.\<close>

lemma read_csv_token_frame:
  "read_csv frame s =
     (case read_csv token_frame s of Inl e \<Rightarrow> Inl e | Inr (header, rows) \<Rightarrow> frame header rows)"
  by (simp add: read_csv_def token_frame_def split: sum.splits list.splits)

lemma keep_line_first: "keep_line [] row = [row]"
  by (simp add: keep_line_def end_line_def header_end_def)

lemma keep_line_same:
  assumes "ls \<noteq> []" and "length row = length (last ls)"
  shows "keep_line ls row = ls @ [row]"
  using assms by (simp add: keep_line_def end_line_def header_end_def Let_def)

lemma keep_line_bad:
  assumes "2 \<le> length ls" and "length (last ls) < length row"
  shows "keep_line ls row = ls"
  using assms by (simp add: keep_line_def end_line_def header_end_def Let_def)

lemma keep_lines_same:
  assumes "ls \<noteq> []" and "length (last ls) = n" and "\<forall>r \<in> set rows. length r = n"
  shows "foldl keep_line ls rows = ls @ rows"
  using assms
proof (induction rows arbitrary: ls)
  case Nil
  then show ?case by simp
next
  case (Cons row rows)
  have k: "keep_line ls row = ls @ [row]"
    using keep_line_same [OF Cons.prems(1)] Cons.prems(2,3) by simp
  have "foldl keep_line (ls @ [row]) rows = (ls @ [row]) @ rows"
    using Cons.IH [of "ls @ [row]"] Cons.prems(3) by simp
  then show ?case using k by simp
qed

lemma keep_lines_table:
  assumes "\<forall>row \<in> set rows. length row = length header"
  shows "foldl keep_line [] (header # rows) = header # rows"
proof -
  have "foldl keep_line [] (header # rows) = foldl keep_line [header] rows"
    by (simp add: keep_line_first)
  also have "\<dots> = [header] @ rows"
    using keep_lines_same [of "[header]" "length header" rows] assms by simp
  finally show ?thesis by simp
qed

lemma keep_lines_long_row:
  assumes "rs1 \<noteq> []"
    and "\<forall>row \<in> set (rs1 @ rs2). length row = length header"
    and "length header < length bad"
  shows "foldl keep_line [] (header # rs1 @ [bad] @ rs2) = header # rs1 @ rs2"
proof -
  let ?n = "length header"
  have a: "foldl keep_line [header] rs1 = [header] @ rs1"
    using keep_lines_same [of "[header]" ?n rs1] assms(2) by simp
  have l: "last ([header] @ rs1) \<in> set rs1" using assms(1) by simp
  then have ln: "length (last ([header] @ rs1)) = ?n" using assms(2) by auto
  have b: "keep_line ([header] @ rs1) bad = [header] @ rs1"
  proof (rule keep_line_bad)
    show "2 \<le> length ([header] @ rs1)" using assms(1) by (cases rs1) simp_all
    show "length (last ([header] @ rs1)) < length bad" using ln assms(3) by simp
  qed
  have c: "foldl keep_line ([header] @ rs1) rs2 = ([header] @ rs1) @ rs2"
    using keep_lines_same [of "[header] @ rs1" ?n rs2] ln assms(2) by simp
  have "foldl keep_line [] (header # rs1 @ [bad] @ rs2)
          = foldl keep_line (keep_line (foldl keep_line [header] rs1) bad) rs2"
    by (simp add: keep_line_first)
  also have "\<dots> = header # rs1 @ rs2" unfolding a b c by simp
  finally show ?thesis .
qed

lemma read_csv_encode_table:
  assumes "header \<noteq> []" and "\<forall>row \<in> set rows. length row = length header"
  shows "read_csv frame (encode header rows) = frame header rows"
proof -
  have ne: "[] \<notin> set rows" using assms by auto
  from tokenize_encode [OF assms(1) ne] keep_lines_table [OF assms(2)]
  obtain p where "tokenize (encode header rows) = Inr p" "plines p = header # rows" by auto
  then show ?thesis by (rule read_csv_lines)
qed

text \<open>
  C1 as stated does not hold for every header and list of rows. A row with more fields
  than the rows before it is a bad line for \<open>read_csv\<close>, which \<open>on_bad_lines='skip'\<close>
  drops: the upload encodes such a row as it reads it, the download builds its frame
  without it, the same frame as for the table that never had the row. And a table
  without columns (the header and the row of a file of two blank lines) is encoded as
  one line break, in which \<open>read_csv\<close> finds no columns to parse and raises. Both hold
  whatever pandas does when it builds the frame.
\<close>

theorem read_csv_encode_roundtrip_counterexample:
  "(\<forall>frame :: string list \<Rightarrow> string list list \<Rightarrow> error + 'df.
        read_csv frame (encode [''a'', ''b''] [[''1'', ''2''], [''3'', ''4'', ''5'']])
          = frame [''a'', ''b''] [[''1'', ''2'']])
   \<and> (\<forall>frame :: string list \<Rightarrow> string list list \<Rightarrow> error + 'df.
        read_csv frame (encode [''a'', ''b''] [[''1'', ''2''], [''3'', ''4'', ''5'']])
          = read_csv frame (encode [''a'', ''b''] [[''1'', ''2'']]))
   \<and> encode [] [[]] = [CHR 0x0A]
   \<and> (\<forall>frame :: string list \<Rightarrow> string list list \<Rightarrow> error + 'df.
        read_csv frame (encode [] [[]]) = Inl EmptyDataError)"
proof -
  have a: "read_csv token_frame (encode [''a'', ''b''] [[''1'', ''2''], [''3'', ''4'', ''5'']])
             = Inr ([''a'', ''b''], [[''1'', ''2'']])"
    by code_simp
  have b: "read_csv token_frame (encode [''a'', ''b''] [[''1'', ''2'']])
             = Inr ([''a'', ''b''], [[''1'', ''2'']])"
    by code_simp
  have c: "read_csv token_frame (encode [] [[]]) = Inl EmptyDataError"
    by code_simp
  have d: "encode [] [[]] = [CHR 0x0A]"
    by code_simp
  have a': "read_csv frame (encode [''a'', ''b''] [[''1'', ''2''], [''3'', ''4'', ''5'']])
              = frame [''a'', ''b''] [[''1'', ''2'']]" for frame :: "string list \<Rightarrow> string list list \<Rightarrow> error + 'df"
    using read_csv_token_frame [of frame] a by simp
  have b': "read_csv frame (encode [''a'', ''b''] [[''1'', ''2'']])
              = frame [''a'', ''b''] [[''1'', ''2'']]" for frame :: "string list \<Rightarrow> string list list \<Rightarrow> error + 'df"
    using read_csv_token_frame [of frame] b by simp
  have c': "read_csv frame (encode [] [[]]) = Inl EmptyDataError"
    for frame :: "string list \<Rightarrow> string list list \<Rightarrow> error + 'df"
    using read_csv_token_frame [of frame] c by simp
  show ?thesis using a' b' c' d by simp
qed

text \<open>
  C1, as amended. For every header with at least one field and every list of rows that
  each have as many fields as the header, the parser reads from the chunk payload that
  encoding produces exactly the header and the rows, field by field as the strings they
  were, and \<open>read_csv\<close> returns the frame that pandas builds from exactly these. No
  condition on the content of the fields is needed: quotes, commas and line breaks
  inside a field are read as they went in.
\<close>

theorem read_csv_encode_roundtrip:
  assumes "header \<noteq> []" and "\<forall>row \<in> set rows. length row = length header"
  shows "(\<exists>p. tokenize (encode header rows) = Inr p \<and> plines p = header # rows)
       \<and> read_csv frame (encode header rows) = frame header rows"
proof -
  have ne: "[] \<notin> set rows" using assms by auto
  from tokenize_encode [OF assms(1) ne] keep_lines_table [OF assms(2)]
  obtain p where p: "tokenize (encode header rows) = Inr p" "plines p = header # rows" by auto
  have "read_csv frame (encode header rows) = frame header rows"
    using p by (rule read_csv_lines)
  with p show ?thesis by blast
qed

theorem read_csv_encode_roundtrip_witness:
  "(\<exists>p. tokenize (encode [''name'', ''note'']
               [[''a,b'', [CHR ''s'', quotechar, CHR ''t'']], [''x'' @ [LF] @ ''y'', ''01'']])
           = Inr p
        \<and> plines p = [''name'', ''note''] #
            [[''a,b'', [CHR ''s'', quotechar, CHR ''t'']], [''x'' @ [LF] @ ''y'', ''01'']])
   \<and> (\<forall>frame. read_csv frame (encode [''name'', ''note'']
               [[''a,b'', [CHR ''s'', quotechar, CHR ''t'']], [''x'' @ [LF] @ ''y'', ''01'']])
         = frame [''name'', ''note'']
             [[''a,b'', [CHR ''s'', quotechar, CHR ''t'']], [''x'' @ [LF] @ ''y'', ''01'']])"
proof -
  have h: "[''name'', ''note''] \<noteq> []" by simp
  have r: "\<forall>row \<in> set [[''a,b'', [CHR ''s'', quotechar, CHR ''t'']], [''x'' @ [LF] @ ''y'', ''01'']].
             length row = length [''name'', ''note'']"
    by simp
  show ?thesis using read_csv_encode_roundtrip [OF h r] by blast
qed

text \<open>
  C8 as stated does not hold for an unmatched quote. A quote that opens a field and is
  never closed runs the field to the end of the payload, where \<open>read_csv\<close> raises (end of
  input inside a string), which \<open>on_bad_lines='skip'\<close> does not cover. When a later quote
  closes it, the rows in between are swallowed into the field: the frame is built from
  one row that holds the text of both lines, so the other rows are not returned as they
  were either.
\<close>

theorem read_csv_unmatched_quote_counterexample:
  "(\<forall>frame :: string list \<Rightarrow> string list list \<Rightarrow> error + 'df.
        read_csv frame (encode [''a''] [[''x'']] @ [LF] @ [quotechar] @ ''y'')
          = Inl ParserError)
   \<and> (\<forall>frame :: string list \<Rightarrow> string list list \<Rightarrow> error + 'df.
        read_csv frame (encode [''a''] [] @ [quotechar] @ ''x'' @ [LF] @ quote_field ''y'')
          = frame [''a''] [[''x'' @ [LF] @ ''y'' @ [quotechar]]])"
proof -
  have a: "read_csv token_frame (encode [''a''] [[''x'']] @ [LF] @ [quotechar] @ ''y'')
             = Inl ParserError"
    by code_simp
  have b: "read_csv token_frame (encode [''a''] [] @ [quotechar] @ ''x'' @ [LF] @ quote_field ''y'')
             = Inr ([''a''], [[''x'' @ [LF] @ ''y'' @ [quotechar]]])"
    by code_simp
  have a': "read_csv frame (encode [''a''] [[''x'']] @ [LF] @ [quotechar] @ ''y'')
              = Inl ParserError" for frame :: "string list \<Rightarrow> string list list \<Rightarrow> error + 'df"
    using read_csv_token_frame [of frame] a by simp
  have b': "read_csv frame (encode [''a''] [] @ [quotechar] @ ''x'' @ [LF] @ quote_field ''y'')
              = frame [''a''] [[''x'' @ [LF] @ ''y'' @ [quotechar]]]"
    for frame :: "string list \<Rightarrow> string list list \<Rightarrow> error + 'df"
    using read_csv_token_frame [of frame] b by simp
  show ?thesis using a' b' by simp
qed

text \<open>
  C8, as amended. The rows that \<open>read_csv\<close> skips are those with too many fields. For a
  payload whose rows have as many fields as the header, except for one row after the
  first data row that has more, the parser keeps the header and all the other rows,
  field by field as they were and in order, and \<open>read_csv\<close> returns the frame that
  pandas builds from them: the frame it returns for the payload without that row. It
  raises only if building that frame does.
\<close>

theorem read_csv_skips_long_row:
  assumes "header \<noteq> []" and "rs1 \<noteq> []"
    and "\<forall>row \<in> set (rs1 @ rs2). length row = length header"
    and "length header < length bad"
  shows "(\<exists>p. tokenize (encode header (rs1 @ [bad] @ rs2)) = Inr p
             \<and> plines p = header # rs1 @ rs2)
       \<and> read_csv frame (encode header (rs1 @ [bad] @ rs2)) = frame header (rs1 @ rs2)
       \<and> read_csv frame (encode header (rs1 @ [bad] @ rs2))
           = read_csv frame (encode header (rs1 @ rs2))"
proof -
  have ne: "[] \<notin> set (rs1 @ [bad] @ rs2)"
  proof
    assume e: "[] \<in> set (rs1 @ [bad] @ rs2)"
    have "bad \<noteq> []" using assms(4) by auto
    with e have "[] \<in> set (rs1 @ rs2)" by auto
    with assms(3) have "length ([] :: string list) = length header" by blast
    with assms(1) show False by simp
  qed
  from tokenize_encode [OF assms(1) ne] keep_lines_long_row [OF assms(2,3,4)]
  obtain p where p: "tokenize (encode header (rs1 @ [bad] @ rs2)) = Inr p"
      "plines p = header # rs1 @ rs2"
    by auto
  have long: "read_csv frame (encode header (rs1 @ [bad] @ rs2)) = frame header (rs1 @ rs2)"
    using p by (rule read_csv_lines)
  have short: "read_csv frame (encode header (rs1 @ rs2)) = frame header (rs1 @ rs2)"
    by (rule read_csv_encode_table [OF assms(1,3)])
  from p long short show ?thesis by auto
qed

theorem read_csv_skips_long_row_witness:
  "(\<exists>p. tokenize (encode [''a'', ''b'']
                     ([[''1'', ''2'']] @ [[''3'', ''4'', ''5'']] @ [[''6'', ''7'']])) = Inr p
        \<and> plines p = [''a'', ''b''] # [[''1'', ''2'']] @ [[''6'', ''7'']])
   \<and> (\<forall>frame. read_csv frame (encode [''a'', ''b'']
                     ([[''1'', ''2'']] @ [[''3'', ''4'', ''5'']] @ [[''6'', ''7'']]))
         = frame [''a'', ''b''] ([[''1'', ''2'']] @ [[''6'', ''7'']]))"
proof -
  have h: "[''a'', ''b''] \<noteq> []" by simp
  have r1: "[[''1'', ''2'']] \<noteq> []" by simp
  have r: "\<forall>row \<in> set ([[''1'', ''2'']] @ [[''6'', ''7'']]). length row = length [''a'', ''b'']"
    by simp
  have b: "length [''a'', ''b''] < length [''3'', ''4'', ''5'']" by simp
  show ?thesis using read_csv_skips_long_row [OF h r1 r b] by blast
qed

section \<open>The upload pipeline: chunks, numbering and progress\<close>

lemma upload_loop_requests:
  "foldl (upload_step tr hs fn did k) (rows, c, pw) data =
     (case loop_requests hs fn did k (rows, c) data of
        ((rows1, c1), reqs) \<Rightarrow> (rows1, c1, foldl (submit tr) pw reqs))"
proof (induction data arbitrary: rows c pw)
  case Nil
  then show ?case by simp
next
  case (Cons row rest)
  let ?rows1 = "rows @ [quoted_row row]"
  let ?rq = "\<lparr>data_file_name = fn, data_file = chunk_data hs ?rows1,
               dataset_id = did, chunk_number = c + 1\<rparr>"
  show ?case
  proof (cases "int (length ?rows1) = k")
    case True
    then have "upload_step tr hs fn did k (rows, c, pw) row = ([], c + 1, submit tr pw ?rq)"
      by (simp add: upload_step_def Let_def submit_def)
    then have "foldl (upload_step tr hs fn did k) (rows, c, pw) (row # rest) =
                 foldl (upload_step tr hs fn did k) ([], c + 1, submit tr pw ?rq) rest"
      by simp
    also have "\<dots> = (case loop_requests hs fn did k ([], c + 1) rest of
        ((rows1, c1), reqs) \<Rightarrow> (rows1, c1, foldl (submit tr) (submit tr pw ?rq) reqs))"
      by (rule Cons.IH)
    finally show ?thesis using True by (simp add: Let_def split: prod.splits)
  next
    case False
    then have "upload_step tr hs fn did k (rows, c, pw) row = (?rows1, c, pw)"
      by (simp add: upload_step_def Let_def)
    then have "foldl (upload_step tr hs fn did k) (rows, c, pw) (row # rest) =
                 foldl (upload_step tr hs fn did k) (?rows1, c, pw) rest"
      by simp
    also have "\<dots> = (case loop_requests hs fn did k (?rows1, c) rest of
        ((rows1, c1), reqs) \<Rightarrow> (rows1, c1, foldl (submit tr) pw reqs))"
      by (rule Cons.IH)
    finally show ?thesis using False by (simp add: Let_def)
  qed
qed

lemma map_upt_shift: "map f [Suc 0 ..< Suc m] = map (\<lambda>i. f (Suc i)) [0 ..< m]"
  by (simp add: map_Suc_upt [symmetric] del: upt_Suc)

lemma drop_full_prefix: "length xs = k \<Longrightarrow> drop (k + j) (xs @ ys) = drop j ys"
  by simp

lemma take_full_prefix: "length xs = k \<Longrightarrow> take k (xs @ ys) = xs"
  by simp

lemma loop_requests_windows:
  assumes "0 < k" and "length rows < k"
  shows "loop_requests hs fn did (int k) (rows, c) data =
           ((drop ((length (rows @ map quoted_row data) div k) * k) (rows @ map quoted_row data),
             c + int (length (rows @ map quoted_row data) div k)),
            map (\<lambda>i. (chunk_request hs fn did k (rows @ map quoted_row data) i)
                        \<lparr>chunk_number := c + int i + 1\<rparr>)
              [0 ..< length (rows @ map quoted_row data) div k])"
  using assms(2)
proof (induction data arbitrary: rows c)
  case Nil
  then show ?case by simp
next
  case (Cons row rest)
  define rows1 where "rows1 = rows @ [quoted_row row]"
  define enc where "enc = map quoted_row rest"
  define al where "al = rows @ map quoted_row (row # rest)"
  have al: "al = rows1 @ enc" by (simp add: al_def rows1_def enc_def)
  show ?case
  proof (cases "length rows1 = k")
    case True
    define m where "m = length enc div k"
    have len: "length al = k + length enc" using True al by simp
    have m: "length al div k = Suc m"
      using assms(1) div_add_self1 [of k "length enc"] unfolding len m_def by simp
    have ih: "loop_requests hs fn did (int k) ([], c + 1) rest =
           ((drop (m * k) enc, c + 1 + int m),
            map (\<lambda>i. (chunk_request hs fn did k enc i)\<lparr>chunk_number := c + 1 + int i + 1\<rparr>)
              [0 ..< m])"
      using Cons.IH [of "[]" "c + 1"] assms(1) by (simp add: enc_def m_def)
    have d: "drop (k + j) al = drop j enc" for j
      unfolding al by (rule drop_full_prefix [OF True])
    have d0: "take k al = rows1"
      unfolding al by (rule take_full_prefix [OF True])
    have dS: "drop (Suc i * k) al = drop (i * k) enc" for i
      using d [of "i * k"] by simp
    have shift: "(chunk_request hs fn did k al (Suc i))\<lparr>chunk_number := c + int (Suc i) + 1\<rparr>
                  = (chunk_request hs fn did k enc i)\<lparr>chunk_number := c + 1 + int i + 1\<rparr>" for i
      unfolding chunk_request_def dS by simp
    have first: "\<lparr>data_file_name = fn, data_file = chunk_data hs rows1, dataset_id = did,
                   chunk_number = c + 1\<rparr>
                 = (chunk_request hs fn did k al 0)\<lparr>chunk_number := c + int 0 + 1\<rparr>"
      unfolding chunk_request_def using d0 by simp
    have upt: "[0 ..< Suc m] = 0 # [Suc 0 ..< Suc m]" by (simp add: upt_rec)
    have step: "loop_requests hs fn did (int k) (rows, c) (row # rest) =
            ((drop (m * k) enc, c + 1 + int m),
             \<lparr>data_file_name = fn, data_file = chunk_data hs rows1, dataset_id = did,
                   chunk_number = c + 1\<rparr> #
             map (\<lambda>i. (chunk_request hs fn did k enc i)\<lparr>chunk_number := c + 1 + int i + 1\<rparr>)
              [0 ..< m])"
      using True ih by (simp add: Let_def rows1_def)
    have "map (\<lambda>i. (chunk_request hs fn did k al i)\<lparr>chunk_number := c + int i + 1\<rparr>) [0 ..< Suc m]
          = \<lparr>data_file_name = fn, data_file = chunk_data hs rows1, dataset_id = did,
                   chunk_number = c + 1\<rparr> #
             map (\<lambda>i. (chunk_request hs fn did k enc i)\<lparr>chunk_number := c + 1 + int i + 1\<rparr>)
              [0 ..< m]"
      unfolding upt list.map map_upt_shift shift first ..
    moreover have "drop (Suc m * k) al = drop (m * k) enc" by (rule dS)
    moreover have "c + int (Suc m) = c + 1 + int m" by simp
    ultimately have "loop_requests hs fn did (int k) (rows, c) (row # rest) =
         ((drop (Suc m * k) al, c + int (Suc m)),
            map (\<lambda>i. (chunk_request hs fn did k al i)\<lparr>chunk_number := c + int i + 1\<rparr>)
              [0 ..< Suc m])"
      using step by simp
    then show ?thesis unfolding m [symmetric] al_def .
  next
    case False
    with Cons.prems have lt: "length rows1 < k" by (simp add: rows1_def)
    have "loop_requests hs fn did (int k) (rows, c) (row # rest) =
            loop_requests hs fn did (int k) (rows1, c) rest"
      using False by (simp add: Let_def rows1_def)
    then show ?thesis using Cons.IH [OF lt, of c] by (simp add: rows1_def)
  qed
qed


lemma foldl_submit_snoc:
  "foldl (submit tr) pw (reqs @ [rq]) = submit tr (foldl (submit tr) pw reqs) rq"
  by simp

lemma upload_dataset_requests:
  assumes "fs (path_str file_path) = Some content"
    and "csv_reader (readlines content) = (header # data, None)"
  shows "upload_dataset tr fs file_path did file_name rpc w =
           (case foldl (submit tr)
                   (\<lparr>pbar_total = int (length (readlines content)) - 1, pbar_n = 0\<rparr>, w)
                   (upload_requests (header_str header) (path_str file_path) did rpc data) of
              (pbar, w1) \<Rightarrow> (Inr pbar, w1\<lparr>printed := printed w1 @ [UploadCompleted]\<rparr>))"
proof -
  let ?hs = "header_str header"
  let ?fn = "path_str file_path"
  let ?pw = "(\<lparr>pbar_total = int (length (readlines content)) - 1, pbar_n = 0\<rparr>, w)"
  obtain rows c reqs where lr: "loop_requests ?hs ?fn did rpc ([], 0) data = ((rows, c), reqs)"
    by (metis surj_pair)
  have loop: "foldl (upload_step tr ?hs ?fn did rpc) ([], 0, ?pw) data =
                (rows, c, foldl (submit tr) ?pw reqs)"
    using upload_loop_requests [of tr ?hs ?fn did rpc "[]" 0 ?pw data] lr by simp
  have ur: "upload_requests ?hs ?fn did rpc data =
              reqs @ (if rows \<noteq> [] then [\<lparr>data_file_name = ?fn, data_file = chunk_data ?hs rows,
                         dataset_id = did, chunk_number = c + 1\<rparr>] else [])"
    using lr by (simp add: upload_requests_def)
  show ?thesis
  proof (cases "rows = []")
    case True
    then show ?thesis
      unfolding upload_dataset_def ur using assms loop
      by (simp add: Let_def split: prod.splits)
  next
    case False
    then show ?thesis
      unfolding upload_dataset_def ur using assms loop
      by (simp add: Let_def submit_def split: prod.splits)
  qed
qed

lemma ceil_div:
  assumes "0 < (k::nat)"
  shows "(n + k - 1) div k = (if n mod k = 0 then n div k else Suc (n div k))"
proof -
  define q where "q = n div k"
  define r where "r = n mod k"
  have n: "n = k * q + r" by (simp add: q_def r_def)
  have r: "r < k" using assms by (simp add: r_def)
  show ?thesis
  proof (cases "r = 0")
    case True
    have "(n + k - 1) div k = q"
    proof (rule div_nat_eqI)
      show "k * q \<le> n + k - 1" using n True assms by simp
      show "n + k - 1 < k * Suc q" using n True assms by simp
    qed
    then show ?thesis using True by (simp add: q_def r_def)
  next
    case False
    have "(n + k - 1) div k = Suc q"
    proof (rule div_nat_eqI)
      show "k * Suc q \<le> n + k - 1" using n False by simp
      show "n + k - 1 < k * Suc (Suc q)" using n r by simp
    qed
    then show ?thesis using False by (simp add: q_def r_def)
  qed
qed

lemma upload_request_eta:
  "\<lparr>data_file_name = data_file_name rq, data_file = data_file rq,
     dataset_id = dataset_id rq, chunk_number = chunk_number rq\<rparr> = rq"
  by simp

lemma upload_requests_windows:
  assumes "0 < k"
  shows "upload_requests hs fn did (int k) data =
           map (chunk_request hs fn did k (map quoted_row data))
             [0 ..< (length data + k - 1) div k]"
proof -
  define enc where "enc = map quoted_row data"
  define m where "m = length enc div k"
  have lr: "loop_requests hs fn did (int k) ([], 0) data =
              ((drop (m * k) enc, int m), map (chunk_request hs fn did k enc) [0 ..< m])"
    using loop_requests_windows [OF assms, of "[]" hs fn did 0 data] assms
    by (simp add: enc_def m_def chunk_request_def)
  have len: "length enc = length data" by (simp add: enc_def)
  have ldrop: "length (drop (m * k) enc) = length enc mod k"
    by (simp add: m_def minus_div_mult_eq_mod)
  show ?thesis
  proof (cases "length enc mod k = 0")
    case True
    then have "drop (m * k) enc = []" using ldrop by simp
    moreover have "(length data + k - 1) div k = m"
      using ceil_div [OF assms, of "length data"] True len by (simp add: m_def)
    ultimately show ?thesis using lr by (simp add: upload_requests_def enc_def)
  next
    case False
    then have ne: "drop (m * k) enc \<noteq> []" using ldrop by auto
    have lt: "length (drop (m * k) enc) < k" using ldrop assms by simp
    have last: "\<lparr>data_file_name = fn, data_file = chunk_data hs (drop (m * k) enc),
                  dataset_id = did, chunk_number = int m + 1\<rparr> = chunk_request hs fn did k enc m"
      using lt by (simp add: chunk_request_def)
    have "(length data + k - 1) div k = Suc m"
      using ceil_div [OF assms, of "length data"] False len by (simp add: m_def)
    then show ?thesis using lr ne last by (simp add: upload_requests_def enc_def)
  qed
qed

lemma foldl_submit_effect:
  "foldl (submit tr) (pbar, w) reqs =
     (pbar\<lparr>pbar_n := pbar_n pbar +
               (\<Sum>r\<leftarrow>reqs. if tr r = 200 then int (length (splitlines (data_file r))) - 1 else 0)\<rparr>,
      w\<lparr>sent := sent w @ reqs,
         printed := printed w @ map (\<lambda>r. ChunkFailed (chunk_number r) (tr r))
                                  (filter (\<lambda>r. tr r \<noteq> 200) reqs)\<rparr>)"
proof (induction reqs rule: rev_induct)
  case Nil
  then show ?case by simp
next
  case (snoc rq reqs)
  show ?case
    unfolding foldl_submit_snoc snoc.IH
    by (simp add: submit_def upload_chunk_def Let_def upload_request_eta)
qed


lemma concat_windows:
  "length xs \<le> m * k \<Longrightarrow> concat (map (\<lambda>i. take k (drop (i * k) xs)) [0 ..< m]) = xs"
proof (induction m arbitrary: xs)
  case 0
  then show ?case by simp
next
  case (Suc m)
  have upt: "[0 ..< Suc m] = 0 # [Suc 0 ..< Suc m]" by (simp add: upt_rec)
  have l: "length (drop k xs) \<le> m * k" using Suc.prems by simp
  have sh: "drop (Suc i * k) xs = drop (i * k) (drop k xs)" for i
    by (simp add: add.commute)
  have "concat (map (\<lambda>i. take k (drop (i * k) xs)) [0 ..< Suc m])
          = take k xs @ concat (map (\<lambda>i. take k (drop (i * k) (drop k xs))) [0 ..< m])"
    unfolding upt list.map map_upt_shift sh by simp
  also have "\<dots> = take k xs @ drop k xs" using Suc.IH [OF l] by simp
  finally show ?case by simp
qed

lemma ceil_covers:
  assumes "0 < (k::nat)"
  shows "n \<le> ((n + k - 1) div k) * k"
proof (cases "n mod k = 0")
  case True
  then show ?thesis using ceil_div [OF assms, of n] by auto
next
  case False
  have "n = (n div k) * k + n mod k" by simp
  moreover have "n mod k < k" using assms by simp
  ultimately have "n < Suc (n div k) * k" by (metis add_less_cancel_left mult_Suc add.commute)
  then show ?thesis using ceil_div [OF assms, of n] False by simp
qed

lemma window_lengths:
  assumes "0 < (k::nat)" and "i < (length xs + k - 1) div k"
  shows "(Suc i < (length xs + k - 1) div k \<longrightarrow> length (take k (drop (i * k) xs)) = k)
       \<and> 0 < length (take k (drop (i * k) xs)) \<and> length (take k (drop (i * k) xs)) \<le> k"
proof -
  let ?n = "length xs"
  let ?m = "(?n + k - 1) div k"
  have dm: "(?n div k) * k \<le> ?n" by simp
  have pos: "i * k < ?n"
  proof (cases "?n mod k = 0")
    case True
    then have "?m = ?n div k" using ceil_div [OF assms(1), of ?n] by simp
    then have "Suc i \<le> ?n div k" using assms(2) by simp
    then have "Suc i * k \<le> (?n div k) * k" by (rule mult_le_mono1)
    then have "i * k + k \<le> (?n div k) * k" by simp
    from this dm assms(1) show ?thesis by linarith
  next
    case False
    then have "?m = Suc (?n div k)" using ceil_div [OF assms(1), of ?n] by simp
    then have "i \<le> ?n div k" using assms(2) by simp
    then have a: "i * k \<le> (?n div k) * k" by (rule mult_le_mono1)
    have "?n = (?n div k) * k + ?n mod k" by simp
    with False have b: "(?n div k) * k < ?n" by linarith
    from a b show ?thesis by linarith
  qed
  have full: "length (take k (drop (i * k) xs)) = k" if "Suc i < ?m"
  proof -
    have "?m \<le> Suc (?n div k)" using ceil_div [OF assms(1), of ?n] by simp
    then have "Suc i \<le> ?n div k" using that by simp
    then have "Suc i * k \<le> (?n div k) * k" by (rule mult_le_mono1)
    then have "i * k + k \<le> (?n div k) * k" by simp
    from this dm have "i * k + k \<le> ?n" by linarith
    then show ?thesis by simp
  qed
  show ?thesis using pos full assms(1) by simp
qed

lemma map_upt_Suc_shift: "map f [Suc a ..< Suc b] = map (\<lambda>i. f (Suc i)) [a ..< b]"
  by (simp add: map_Suc_upt [symmetric] del: upt_Suc)

lemma loop_requests_shape:
  assumes "loop_requests hs fn did k (rows, c) data = ((rows1, c1), reqs)"
  shows "(\<forall>r \<in> set reqs. data_file_name r = fn \<and> dataset_id r = did
            \<and> (\<exists>ws. ws \<noteq> [] \<and> set ws \<subseteq> set rows \<union> quoted_row ` set data
                  \<and> data_file r = chunk_data hs ws))
       \<and> map chunk_number reqs = map (\<lambda>i. c + int i) [1 ..< Suc (length reqs)]
       \<and> c1 = c + int (length reqs)
       \<and> set rows1 \<subseteq> set rows \<union> quoted_row ` set data"
  using assms
proof (induction data arbitrary: rows c rows1 c1 reqs)
  case Nil
  then show ?case by simp
next
  case (Cons row rest)
  define rowsa where "rowsa = rows @ [quoted_row row]"
  show ?case
  proof (cases "int (length rowsa) = k")
    case True
    obtain rows2 c2 reqs2 where lr: "loop_requests hs fn did k ([], c + 1) rest = ((rows2, c2), reqs2)"
      by (metis surj_pair)
    define rq where "rq = \<lparr>data_file_name = fn, data_file = chunk_data hs rowsa,
                        dataset_id = did, chunk_number = c + 1\<rparr>"
    have eq: "rows1 = rows2" "c1 = c2" "reqs = rq # reqs2"
      using Cons.prems True lr by (simp_all add: Let_def rowsa_def rq_def)
    note ih = Cons.IH [OF lr]
    have rqp: "data_file_name rq = fn \<and> dataset_id rq = did
            \<and> (\<exists>ws. ws \<noteq> [] \<and> set ws \<subseteq> set rows \<union> quoted_row ` set (row # rest)
                  \<and> data_file rq = chunk_data hs ws)"
      unfolding rq_def by (auto simp: rowsa_def intro!: exI [of _ rowsa])
    have restp: "\<forall>r \<in> set reqs2. data_file_name r = fn \<and> dataset_id r = did
            \<and> (\<exists>ws. ws \<noteq> [] \<and> set ws \<subseteq> set rows \<union> quoted_row ` set (row # rest)
                  \<and> data_file r = chunk_data hs ws)"
      using ih by fastforce
    have num2: "map chunk_number reqs2 = map (\<lambda>i. c + 1 + int i) [1 ..< Suc (length reqs2)]"
      using ih by blast
    have upt: "[1 ..< Suc (Suc (length reqs2))] = 1 # [Suc 1 ..< Suc (Suc (length reqs2))]"
      by (simp add: upt_rec)
    have num: "map chunk_number reqs = map (\<lambda>i. c + int i) [1 ..< Suc (length reqs)]"
      unfolding eq(3) list.map length_Cons upt map_upt_Suc_shift num2
      by (simp add: rq_def add.assoc)
    have "c1 = c + int (length reqs)" using ih eq by simp
    moreover have "set rows1 \<subseteq> set rows \<union> quoted_row ` set (row # rest)"
      using ih eq by auto
    ultimately show ?thesis using rqp restp num eq(3) by simp
  next
    case False
    then have lr: "loop_requests hs fn did k (rowsa, c) rest = ((rows1, c1), reqs)"
      using Cons.prems by (simp add: Let_def rowsa_def)
    note ih = Cons.IH [OF lr]
    have sub: "set rowsa \<union> quoted_row ` set rest = set rows \<union> quoted_row ` set (row # rest)"
      by (auto simp: rowsa_def)
    show ?thesis using ih unfolding sub by blast
  qed
qed

lemma list_in_image:
  "set ys \<subseteq> f ` A \<Longrightarrow> \<exists>ws. ys = map f ws \<and> set ws \<subseteq> A"
proof (induction ys)
  case Nil
  then show ?case by simp
next
  case (Cons y ys)
  then obtain ws where ws: "ys = map f ws" "set ws \<subseteq> A" by auto
  from Cons.prems obtain a where "a \<in> A" "y = f a" by auto
  with ws have "y # ys = map f (a # ws) \<and> set (a # ws) \<subseteq> A" by simp
  then show ?case by (rule exI)
qed

lemma upload_requests_shape:
  "(\<forall>r \<in> set (upload_requests hs fn did k data).
       data_file_name r = fn \<and> dataset_id r = did
       \<and> (\<exists>ws. ws \<noteq> [] \<and> set ws \<subseteq> set data
             \<and> data_file r = chunk_data hs (map quoted_row ws)))
   \<and> map chunk_number (upload_requests hs fn did k data)
       = map int [1 ..< Suc (length (upload_requests hs fn did k data))]"
proof -
  obtain rows1 c1 reqs where lr: "loop_requests hs fn did k ([], 0) data = ((rows1, c1), reqs)"
    by (metis surj_pair)
  note sh = loop_requests_shape [OF lr]
  define fin where "fin = (if rows1 \<noteq> [] then [\<lparr>data_file_name = fn, data_file = chunk_data hs rows1,
                         dataset_id = did, chunk_number = c1 + 1\<rparr>] else [])"
  have ur: "upload_requests hs fn did k data = reqs @ fin"
    using lr by (simp add: upload_requests_def fin_def)
  have ex: "\<exists>ws. ws \<noteq> [] \<and> set ws \<subseteq> set data \<and> chunk_data hs ys = chunk_data hs (map quoted_row ws)"
    if "ys \<noteq> []" "set ys \<subseteq> quoted_row ` set data" for ys
  proof -
    from list_in_image [OF that(2)] obtain ws where "ys = map quoted_row ws" "set ws \<subseteq> set data"
      by blast
    with that(1) show ?thesis by auto
  qed
  have p1: "\<forall>r \<in> set reqs. data_file_name r = fn \<and> dataset_id r = did
       \<and> (\<exists>ws. ws \<noteq> [] \<and> set ws \<subseteq> set data
             \<and> data_file r = chunk_data hs (map quoted_row ws))"
  proof
    fix r assume "r \<in> set reqs"
    with sh obtain ys where "data_file_name r = fn" "dataset_id r = did" "ys \<noteq> []"
        "set ys \<subseteq> quoted_row ` set data" "data_file r = chunk_data hs ys"
      by auto
    with ex [of ys] show "data_file_name r = fn \<and> dataset_id r = did
       \<and> (\<exists>ws. ws \<noteq> [] \<and> set ws \<subseteq> set data
             \<and> data_file r = chunk_data hs (map quoted_row ws))" by auto
  qed
  have p2: "\<forall>r \<in> set fin. data_file_name r = fn \<and> dataset_id r = did
       \<and> (\<exists>ws. ws \<noteq> [] \<and> set ws \<subseteq> set data
             \<and> data_file r = chunk_data hs (map quoted_row ws))"
    using sh ex [of rows1] by (auto simp: fin_def)
  have num: "map chunk_number (reqs @ fin) = map int [1 ..< Suc (length (reqs @ fin))]"
  proof -
    have a: "map chunk_number reqs = map int [1 ..< Suc (length reqs)]" using sh by simp
    have c1: "c1 = int (length reqs)" using sh by simp
    show ?thesis using a c1 by (simp add: fin_def)
  qed
  show ?thesis unfolding ur using p1 p2 num by auto
qed


lemma chunk_data_rows:
  "chunk_data (header_str header) (map quoted_row ws)
     = str_join [delimiter] (map quote_field header) @ [LF]
       @ str_join [LF] (map (\<lambda>row. str_join [delimiter] (map quote_field row)) ws)"
  by (simp add: chunk_data_def header_str_def quoted_row_def [abs_def])

lemma chunk_request_rows:
  "chunk_request (header_str header) fn did k (map quoted_row data) i
     = \<lparr>data_file_name = fn,
        data_file = str_join [delimiter] (map quote_field header) @ [LF]
                    @ str_join [LF] (map (\<lambda>row. str_join [delimiter] (map quote_field row))
                                       (take k (drop (i * k) data))),
        dataset_id = did, chunk_number = int i + 1\<rparr>"
proof -
  have "take k (drop (i * k) (map quoted_row data)) = map quoted_row (take k (drop (i * k) data))"
    by (simp only: take_map drop_map)
  then show ?thesis
    unfolding chunk_request_def by (simp only: chunk_data_rows)
qed


text \<open>
  C2. For rows_per_chunk \<open>k > 0\<close> and a file whose reader yields the header and \<open>n\<close>
  data rows, \<open>upload_dataset\<close> submits exactly \<open>m = ceil(n / k)\<close> chunks. The \<open>i\<close>-th of
  them (from 0) is the request whose payload is, character for character, the line of
  the quoted header fields joined by commas, a line feed, and the lines of the rows
  \<open>i * k\<close> to \<open>i * k + k - 1\<close> of the file, each the quoted fields of the row joined by
  commas, joined by line feeds: exactly \<open>k\<close> rows for every chunk but the last, between
  1 and \<open>k\<close> rows for the last, all rows together in file order. Read back by
  \<open>read_csv\<close>, the payload of a chunk whose rows have as many fields as the header, which
  has at least one, gives the frame of exactly the header and these rows. The chunk
  numbers sent are 1, 2, ..., m in this order; the last, partial buffer is submitted
  like the full ones.
\<close>

theorem upload_dataset_chunking:
  assumes "fs (path_str file_path) = Some content"
    and "csv_reader (readlines content) = (header # data, None)"
    and "0 < k"
    and "m = (length data + k - 1) div k"
  shows "\<exists>pbar w1.
           upload_dataset tr fs file_path did file_name (int k) w = (Inr pbar, w1)
         \<and> sent w1 = sent w @
             map (\<lambda>i. \<lparr>data_file_name = path_str file_path,
                        data_file =
                          str_join [delimiter] (map quote_field header) @ [LF]
                          @ str_join [LF]
                              (map (\<lambda>row. str_join [delimiter] (map quote_field row))
                                 (take k (drop (i * k) data))),
                        dataset_id = did,
                        chunk_number = int i + 1\<rparr>) [0 ..< m]
         \<and> map chunk_number (drop (length (sent w)) (sent w1)) = map int [1 ..< Suc m]
         \<and> (\<forall>i < m. (Suc i < m \<longrightarrow> length (take k (drop (i * k) data)) = k)
                   \<and> 0 < length (take k (drop (i * k) data))
                   \<and> length (take k (drop (i * k) data)) \<le> k
                   \<and> (header \<noteq> []
                        \<and> (\<forall>row \<in> set (take k (drop (i * k) data)). length row = length header)
                      \<longrightarrow> read_csv frame (data_file (drop (length (sent w)) (sent w1) ! i))
                            = frame header (take k (drop (i * k) data))))
         \<and> concat (map (\<lambda>i. take k (drop (i * k) data)) [0 ..< m]) = data"
proof -
  let ?hs = "header_str header"
  let ?fn = "path_str file_path"
  let ?win = "\<lambda>i. take k (drop (i * k) data)"
  let ?pay = "\<lambda>i. str_join [delimiter] (map quote_field header) @ [LF]
                   @ str_join [LF]
                       (map (\<lambda>row. str_join [delimiter] (map quote_field row)) (?win i))"
  let ?rq = "\<lambda>i. \<lparr>data_file_name = ?fn, data_file = ?pay i, dataset_id = did,
                   chunk_number = int i + 1\<rparr>"
  let ?pw = "(\<lparr>pbar_total = int (length (readlines content)) - 1, pbar_n = 0\<rparr>, w)"
  define reqs where "reqs = map ?rq [0 ..< m]"
  have cr: "chunk_request ?hs ?fn did k (map quoted_row data) = ?rq"
    by (rule ext) (rule chunk_request_rows)
  have ur: "upload_requests ?hs ?fn did (int k) data = reqs"
    unfolding reqs_def cr [symmetric] assms(4) by (rule upload_requests_windows [OF assms(3)])
  obtain pbar w1 where f: "foldl (submit tr) ?pw reqs = (pbar, w1)" by (metis surj_pair)
  let ?w = "w1\<lparr>printed := printed w1 @ [UploadCompleted]\<rparr>"
  have up: "upload_dataset tr fs file_path did file_name (int k) w = (Inr pbar, ?w)"
    using upload_dataset_requests [where fs = fs and file_path = file_path and tr = tr
        and did = did and file_name = file_name and rpc = "int k" and w = w, OF assms(1,2)]
    unfolding ur f by simp
  have sent1: "sent w1 = sent w @ reqs"
    using f unfolding foldl_submit_effect by auto
  have sent: "sent ?w = sent w @ reqs" using sent1 by simp
  have dr: "drop (length (sent w)) (sent ?w) = reqs" using sent by simp
  have len: "length reqs = m" by (simp add: reqs_def)
  have nth: "reqs ! i = ?rq i" if "i < m" for i
    using that by (simp add: reqs_def)
  have num: "map chunk_number reqs = map int [1 ..< Suc m]"
  proof -
    have "map chunk_number reqs = map (\<lambda>i. int (Suc i)) [0 ..< m]"
      by (simp add: reqs_def)
    also have "\<dots> = map int [Suc 0 ..< Suc m]"
      using map_upt_Suc_shift [of int 0 m] by simp
    finally show ?thesis by simp
  qed
  have lens: "(Suc i < m \<longrightarrow> length (?win i) = k) \<and> 0 < length (?win i) \<and> length (?win i) \<le> k"
    if "i < m" for i
    using window_lengths [OF assms(3), of i data] that assms(4) by simp
  have pay: "?pay i = encode header (?win i)" for i
    unfolding encode_def chunk_data_rows ..
  have dec: "read_csv frame (data_file (reqs ! i)) = frame header (?win i)"
    if "i < m" and "header \<noteq> []" and "\<forall>row \<in> set (?win i). length row = length header" for i
  proof -
    have "data_file (reqs ! i) = encode header (?win i)"
      unfolding nth [OF that(1)] pay [symmetric] by simp
    then show ?thesis using read_csv_encode_table [OF that(2,3)] by simp
  qed
  have cov: "concat (map ?win [0 ..< m]) = data"
    using concat_windows [of data m k] ceil_covers [OF assms(3), of "length data"] assms(4)
    by simp
  have per: "\<forall>i < m. (Suc i < m \<longrightarrow> length (?win i) = k)
                   \<and> 0 < length (?win i)
                   \<and> length (?win i) \<le> k
                   \<and> (header \<noteq> [] \<and> (\<forall>row \<in> set (?win i). length row = length header)
                      \<longrightarrow> read_csv frame (data_file (reqs ! i)) = frame header (?win i))"
  proof (intro allI impI)
    fix i assume i: "i < m"
    show "(Suc i < m \<longrightarrow> length (?win i) = k)
                   \<and> 0 < length (?win i)
                   \<and> length (?win i) \<le> k
                   \<and> (header \<noteq> [] \<and> (\<forall>row \<in> set (?win i). length row = length header)
                      \<longrightarrow> read_csv frame (data_file (reqs ! i)) = frame header (?win i))"
      using lens [OF i] dec [OF i] by blast
  qed
  have s2: "sent ?w = sent w @ map ?rq [0 ..< m]"
    using sent unfolding reqs_def .
  have n2: "map chunk_number (drop (length (sent w)) (sent ?w)) = map int [1 ..< Suc m]"
    unfolding dr by (rule num)
  have per2: "\<forall>i < m. (Suc i < m \<longrightarrow> length (?win i) = k)
                   \<and> 0 < length (?win i)
                   \<and> length (?win i) \<le> k
                   \<and> (header \<noteq> [] \<and> (\<forall>row \<in> set (?win i). length row = length header)
                      \<longrightarrow> read_csv frame (data_file (drop (length (sent w)) (sent ?w) ! i))
                            = frame header (?win i))"
    unfolding dr by (rule per)
  have "upload_dataset tr fs file_path did file_name (int k) w = (Inr pbar, ?w)
         \<and> sent ?w = sent w @ map ?rq [0 ..< m]
         \<and> map chunk_number (drop (length (sent w)) (sent ?w)) = map int [1 ..< Suc m]
         \<and> (\<forall>i < m. (Suc i < m \<longrightarrow> length (?win i) = k)
                   \<and> 0 < length (?win i)
                   \<and> length (?win i) \<le> k
                   \<and> (header \<noteq> [] \<and> (\<forall>row \<in> set (?win i). length row = length header)
                      \<longrightarrow> read_csv frame (data_file (drop (length (sent w)) (sent ?w) ! i))
                            = frame header (?win i)))
         \<and> concat (map ?win [0 ..< m]) = data"
    using up s2 n2 per2 cov by (intro conjI)
  then show ?thesis by (intro exI [of _ pbar] exI [of _ ?w])
qed

theorem upload_dataset_chunking_witness:
  "[''f.csv'' \<mapsto> ''h'' @ [LF] @ ''a'' @ [LF] @ ''b'' @ [LF] @ ''c'' @ [LF] @ ''d'' @ [LF] @ ''e'' @ [LF]]
     (path_str ''./f.csv'')
     = Some (''h'' @ [LF] @ ''a'' @ [LF] @ ''b'' @ [LF] @ ''c'' @ [LF] @ ''d'' @ [LF] @ ''e'' @ [LF])
   \<and> csv_reader (readlines
         (''h'' @ [LF] @ ''a'' @ [LF] @ ''b'' @ [LF] @ ''c'' @ [LF] @ ''d'' @ [LF] @ ''e'' @ [LF]))
       = ([''h''] # [[''a''], [''b''], [''c''], [''d''], [''e'']], None)
   \<and> (0::nat) < 2
   \<and> (\<exists>pbar w1.
         upload_dataset (\<lambda>r. 200)
           [''f.csv'' \<mapsto> ''h'' @ [LF] @ ''a'' @ [LF] @ ''b'' @ [LF] @ ''c'' @ [LF] @ ''d'' @ [LF] @ ''e'' @ [LF]]
           ''./f.csv'' ''ds'' ''up.csv'' (int 2) \<lparr>sent = [], printed = []\<rparr> = (Inr pbar, w1)
       \<and> map chunk_number (sent w1) = [1, 2, 3]
       \<and> map data_file (sent w1)
           = [[CHR 0x22, CHR ''h'', CHR 0x22, CHR 0x0A, CHR 0x22, CHR ''a'', CHR 0x22, CHR 0x0A,
               CHR 0x22, CHR ''b'', CHR 0x22],
              [CHR 0x22, CHR ''h'', CHR 0x22, CHR 0x0A, CHR 0x22, CHR ''c'', CHR 0x22, CHR 0x0A,
               CHR 0x22, CHR ''d'', CHR 0x22],
              [CHR 0x22, CHR ''h'', CHR 0x22, CHR 0x0A, CHR 0x22, CHR ''e'', CHR 0x22]]
       \<and> map (\<lambda>r. read_csv token_frame (data_file r)) (sent w1)
           = [Inr ([''h''], [[''a''], [''b'']]), Inr ([''h''], [[''c''], [''d'']]),
              Inr ([''h''], [[''e'']])])"
proof -
  let ?c = "''h'' @ [LF] @ ''a'' @ [LF] @ ''b'' @ [LF] @ ''c'' @ [LF] @ ''d'' @ [LF] @ ''e'' @ [LF]"
  let ?fs = "[''f.csv'' \<mapsto> ?c]"
  let ?data = "[[''a''], [''b''], [''c''], [''d''], [''e'']]"
  let ?w = "\<lparr>sent = [], printed = []\<rparr>"
  let ?l1 = "[CHR 0x22, CHR ''h'', CHR 0x22, CHR 0x0A, CHR 0x22, CHR ''a'', CHR 0x22, CHR 0x0A,
               CHR 0x22, CHR ''b'', CHR 0x22]"
  let ?l2 = "[CHR 0x22, CHR ''h'', CHR 0x22, CHR 0x0A, CHR 0x22, CHR ''c'', CHR 0x22, CHR 0x0A,
               CHR 0x22, CHR ''d'', CHR 0x22]"
  let ?l3 = "[CHR 0x22, CHR ''h'', CHR 0x22, CHR 0x0A, CHR 0x22, CHR ''e'', CHR 0x22]"
  have ps: "path_str ''./f.csv'' = ''f.csv''" by code_simp
  have a1: "?fs (path_str ''./f.csv'') = Some ?c" unfolding ps by simp
  have a2: "csv_reader (readlines ?c) = ([''h''] # ?data, None)" by code_simp
  have a3: "(0::nat) < 2" by simp
  have a4: "(3::nat) = (length ?data + 2 - 1) div 2" by simp
  have u: "[0 ..< 3] = [0, 1, 2::nat]" by (simp add: upt_rec)
  from upload_dataset_chunking [where fs = ?fs and file_path = "''./f.csv''"
      and tr = "\<lambda>r. 200" and did = "''ds''" and file_name = "''up.csv''" and w = ?w,
      OF a1 a2 a3 a4]
  obtain pbar w1 where r:
      "upload_dataset (\<lambda>r. 200) ?fs ''./f.csv'' ''ds'' ''up.csv'' (int 2) ?w = (Inr pbar, w1)"
      "sent w1 = sent ?w @
             map (\<lambda>i. \<lparr>data_file_name = path_str ''./f.csv'',
                        data_file =
                          str_join [delimiter] (map quote_field [''h'']) @ [LF]
                          @ str_join [LF]
                              (map (\<lambda>row. str_join [delimiter] (map quote_field row))
                                 (take 2 (drop (i * 2) ?data))),
                        dataset_id = ''ds'',
                        chunk_number = int i + 1\<rparr>) [0 ..< 3]"
    by blast
  have n: "map chunk_number (sent w1) = [1, 2, 3]"
    unfolding r(2) u by simp
  have d: "map data_file (sent w1) = [?l1, ?l2, ?l3]"
    unfolding r(2) u
    by (simp add: quote_field_def str_replace_def quotechar_def delimiter_def LF_def)
  have q1: "read_csv token_frame ?l1 = Inr ([''h''], [[''a''], [''b'']])" by code_simp
  have q2: "read_csv token_frame ?l2 = Inr ([''h''], [[''c''], [''d'']])" by code_simp
  have q3: "read_csv token_frame ?l3 = Inr ([''h''], [[''e'']])" by code_simp
  have dm: "map (\<lambda>r. read_csv token_frame (data_file r)) (sent w1)
              = map (read_csv token_frame) (map data_file (sent w1))"
    by simp
  have q: "map (\<lambda>r. read_csv token_frame (data_file r)) (sent w1)
           = [Inr ([''h''], [[''a''], [''b'']]), Inr ([''h''], [[''c''], [''d'']]),
              Inr ([''h''], [[''e'']])]"
    unfolding dm d using q1 q2 q3 by simp
  have e: "\<exists>pbar w1.
         upload_dataset (\<lambda>r. 200) ?fs ''./f.csv'' ''ds'' ''up.csv'' (int 2) ?w = (Inr pbar, w1)
       \<and> map chunk_number (sent w1) = [1, 2, 3]
       \<and> map data_file (sent w1) = [?l1, ?l2, ?l3]
       \<and> map (\<lambda>r. read_csv token_frame (data_file r)) (sent w1)
           = [Inr ([''h''], [[''a''], [''b'']]), Inr ([''h''], [[''c''], [''d'']]),
              Inr ([''h''], [[''e'']])]"
    using r(1) n d q by (intro exI [of _ pbar] exI [of _ w1] conjI)
  show ?thesis using a1 a2 a3 e by (intro conjI)
qed

lemma linebreak_chars:
  "is_linebreak LF" "is_linebreak CR" "\<not> is_linebreak quotechar" "\<not> is_linebreak delimiter"
  "LF \<noteq> CR"
  by (simp_all add: is_linebreak_def LF_def CR_def quotechar_def delimiter_def)

lemma splitlines_acc_line:
  assumes "\<forall>c \<in> set l. \<not> is_linebreak c"
  shows "splitlines_acc cur (l @ LF # rest) = (cur @ l) # splitlines_acc [] rest"
  using assms
proof (induction l arbitrary: cur)
  case Nil
  then show ?case using linebreak_chars by simp
next
  case (Cons c l)
  then have c: "\<not> is_linebreak c" and l: "\<forall>c \<in> set l. \<not> is_linebreak c" by simp_all
  from c have "c \<noteq> CR" using linebreak_chars by auto
  then show ?case using c Cons.IH [OF l, of "cur @ [c]"] by simp
qed

lemma splitlines_acc_last:
  assumes "\<forall>c \<in> set l. \<not> is_linebreak c"
  shows "splitlines_acc cur l = (if cur @ l = [] then [] else [cur @ l])"
  using assms
proof (induction l arbitrary: cur)
  case Nil
  then show ?case by simp
next
  case (Cons c l)
  then have c: "\<not> is_linebreak c" and l: "\<forall>c \<in> set l. \<not> is_linebreak c" by simp_all
  from c have "c \<noteq> CR" using linebreak_chars by auto
  then show ?case using c Cons.IH [OF l, of "cur @ [c]"] by simp
qed

lemma splitlines_join:
  assumes "ls \<noteq> []" and "last ls \<noteq> []" and "\<forall>l \<in> set ls. \<forall>c \<in> set l. \<not> is_linebreak c"
  shows "splitlines (str_join [LF] ls) = ls"
  using assms unfolding splitlines_def
proof (induction ls)
  case Nil
  then show ?case by simp
next
  case (Cons l ls)
  show ?case
  proof (cases ls)
    case Nil
    then show ?thesis using Cons.prems splitlines_acc_last [of l "[]"] by simp
  next
    case (Cons l2 ls2)
    have j: "str_join [LF] (l # ls) = l @ LF # str_join [LF] ls" using Cons by simp
    have "splitlines_acc [] (str_join [LF] ls) = ls"
      using Cons.IH Cons.prems Cons by simp
    then show ?thesis
      unfolding j using splitlines_acc_line [of l "[]" "str_join [LF] ls"] Cons.prems(3) by simp
  qed
qed

lemma quote_field_no_linebreak:
  assumes "\<forall>c \<in> set f. \<not> is_linebreak c"
  shows "\<forall>c \<in> set (quote_field f). \<not> is_linebreak c"
  using assms linebreak_chars by (auto simp: quote_field_def str_replace_def split: if_splits)

lemma str_join_set: "set (str_join sep xs) \<subseteq> set sep \<union> \<Union> (set ` set xs)"
  by (induction sep xs rule: str_join.induct) auto

lemma quoted_row_no_linebreak:
  assumes "\<forall>f \<in> set row. \<forall>c \<in> set f. \<not> is_linebreak c"
  shows "\<forall>c \<in> set (quoted_row row). \<not> is_linebreak c"
proof
  fix c assume "c \<in> set (quoted_row row)"
  then have "c \<in> set [delimiter] \<union> \<Union> (set ` set (map quote_field row))"
    using str_join_set [of "[delimiter]" "map quote_field row"] by (auto simp: quoted_row_def)
  then show "\<not> is_linebreak c"
    using assms quote_field_no_linebreak linebreak_chars by auto
qed

lemma quoted_row_nonempty: "row \<noteq> [] \<Longrightarrow> quoted_row row \<noteq> []"
proof (cases row)
  case Nil
  assume "row \<noteq> []"
  with Nil show ?thesis by simp
next
  case (Cons f fs)
  then show ?thesis by (cases fs) (simp_all add: quoted_row_def quote_field_def)
qed

lemma chunk_lines_are_rows:
  assumes "ws \<noteq> []" and "last ws \<noteq> []"
    and "\<forall>f \<in> set header. \<forall>c \<in> set f. \<not> is_linebreak c"
    and "\<forall>row \<in> set ws. \<forall>f \<in> set row. \<forall>c \<in> set f. \<not> is_linebreak c"
  shows "int (length (splitlines (chunk_data (header_str header) (map quoted_row ws)))) - 1
           = int (length ws)"
proof -
  let ?ls = "quoted_row header # map quoted_row ws"
  have cd: "chunk_data (header_str header) (map quoted_row ws) = str_join [LF] ?ls"
    using assms(1) by (cases ws) (simp_all add: chunk_data_def header_str_def quoted_row_def)
  have l: "last ?ls = quoted_row (last ws)" using assms(1) by (simp add: last_map)
  have ne: "last ?ls \<noteq> []" unfolding l by (rule quoted_row_nonempty [OF assms(2)])
  have nb: "\<forall>l \<in> set ?ls. \<forall>c \<in> set l. \<not> is_linebreak c"
    using quoted_row_no_linebreak assms(3,4) by auto
  have "splitlines (str_join [LF] ?ls) = ?ls"
    by (rule splitlines_join [OF _ ne nb]) simp
  then show ?thesis unfolding cd by simp
qed

text \<open>
  What the statuses do to an upload. A chunk submission answered with status 200 advances
  the progress bar by the number of lines of \<open>chunk_data\<close> minus one and prints nothing;
  one answered with any other status leaves the progress bar as it is and prints the
  failure. Neither ends the upload: whatever the statuses, \<open>upload_dataset\<close> returns
  normally having submitted the same requests, those that the rows of the file
  determine; its progress ends at the sum of the advances of the chunks answered with
  200, and it has printed one failure for each other chunk and then the completion
  message. The advance of a chunk is the number of its rows when no field of the header
  or of its rows holds a line boundary and its last row is not the empty row of a blank
  line.
\<close>

lemma upload_dataset_statuses:
  assumes "fs (path_str file_path) = Some content"
    and "csv_reader (readlines content) = (header # data, None)"
    and "reqs = upload_requests (header_str header) (path_str file_path) did rpc data"
  shows "\<exists>pbar w1.
            upload_dataset tr fs file_path did file_name rpc w = (Inr pbar, w1)
          \<and> sent w1 = sent w @ reqs
          \<and> pbar_n pbar = (\<Sum>r\<leftarrow>reqs. if tr r = 200
                                       then int (length (splitlines (data_file r))) - 1 else 0)
          \<and> pbar_total pbar = int (length (readlines content)) - 1
          \<and> printed w1 = printed w @ map (\<lambda>r. ChunkFailed (chunk_number r) (tr r))
                                         (filter (\<lambda>r. tr r \<noteq> 200) reqs)
                            @ [UploadCompleted]"
proof -
  let ?pbar = "\<lparr>pbar_total = int (length (readlines content)) - 1, pbar_n = 0\<rparr>"
  have up: "upload_dataset tr fs file_path did file_name rpc w =
          (case foldl (submit tr) (?pbar, w) reqs of
              (pbar, w1) \<Rightarrow> (Inr pbar, w1\<lparr>printed := printed w1 @ [UploadCompleted]\<rparr>))"
    using upload_dataset_requests [where fs = fs and file_path = file_path and tr = tr
        and did = did and file_name = file_name and rpc = rpc and w = w, OF assms(1,2)] assms(3)
    by simp
  note eff = foldl_submit_effect [of tr ?pbar w reqs]
  show ?thesis unfolding up eff by simp
qed

text \<open>
  C7. The advance of the progress bar for a chunk answered 200 is not the number of data
  rows of the chunk, as the claim and the comment at line 616 have it: line 616 counts
  the lines of \<open>chunk_data\<close>. The chunk of the header \<open>h\<close> and the one data row whose
  field holds \<open>x\<close>, a line feed and \<open>y\<close> has three lines, and a submission of it answered
  200 advances the progress by 2 for its 1 row. The chunk of the header and the two data
  rows \<open>a\<close> and the empty row (of a blank line of the file) ends in a line feed and has
  two lines: the progress advances by 1 for its 2 rows. The same chunk answered 500
  leaves the progress where it was and prints the failure.
\<close>

theorem upload_chunk_progress_counts_lines:
  "encode [''h''] [[''x'' @ [LF] @ ''y'']]
     = [CHR 0x22, CHR ''h'', CHR 0x22, CHR 0x0A, CHR 0x22, CHR ''x'', CHR 0x0A, CHR ''y'', CHR 0x22]
   \<and> upload_chunk (\<lambda>r. 200) (encode [''h''] [[''x'' @ [LF] @ ''y'']]) 1 ''f.csv'' ''ds''
        (\<lparr>pbar_total = 2, pbar_n = 0\<rparr>, \<lparr>sent = [], printed = []\<rparr>)
     = (\<lparr>pbar_total = 2, pbar_n = 2\<rparr>,
        \<lparr>sent = [\<lparr>data_file_name = ''f.csv'',
                   data_file = encode [''h''] [[''x'' @ [LF] @ ''y'']],
                   dataset_id = ''ds'', chunk_number = 1\<rparr>],
         printed = []\<rparr>)
   \<and> encode [''h''] [[''a''], []]
     = [CHR 0x22, CHR ''h'', CHR 0x22, CHR 0x0A, CHR 0x22, CHR ''a'', CHR 0x22, CHR 0x0A]
   \<and> upload_chunk (\<lambda>r. 200) (encode [''h''] [[''a''], []]) 1 ''f.csv'' ''ds''
        (\<lparr>pbar_total = 2, pbar_n = 0\<rparr>, \<lparr>sent = [], printed = []\<rparr>)
     = (\<lparr>pbar_total = 2, pbar_n = 1\<rparr>,
        \<lparr>sent = [\<lparr>data_file_name = ''f.csv'',
                   data_file = encode [''h''] [[''a''], []],
                   dataset_id = ''ds'', chunk_number = 1\<rparr>],
         printed = []\<rparr>)
   \<and> upload_chunk (\<lambda>r. 500) (encode [''h''] [[''a''], []]) 1 ''f.csv'' ''ds''
        (\<lparr>pbar_total = 2, pbar_n = 0\<rparr>, \<lparr>sent = [], printed = []\<rparr>)
     = (\<lparr>pbar_total = 2, pbar_n = 0\<rparr>,
        \<lparr>sent = [\<lparr>data_file_name = ''f.csv'',
                   data_file = encode [''h''] [[''a''], []],
                   dataset_id = ''ds'', chunk_number = 1\<rparr>],
         printed = [ChunkFailed 1 500]\<rparr>)"
proof -
  have e1: "encode [''h''] [[''x'' @ [LF] @ ''y'']]
     = [CHR 0x22, CHR ''h'', CHR 0x22, CHR 0x0A, CHR 0x22, CHR ''x'', CHR 0x0A, CHR ''y'', CHR 0x22]"
    by code_simp
  have e2: "encode [''h''] [[''a''], []]
     = [CHR 0x22, CHR ''h'', CHR 0x22, CHR 0x0A, CHR 0x22, CHR ''a'', CHR 0x22, CHR 0x0A]"
    by code_simp
  have l1: "length (splitlines (encode [''h''] [[''x'' @ [LF] @ ''y'']])) = 3" by code_simp
  have l2: "length (splitlines (encode [''h''] [[''a''], []])) = 2" by code_simp
  show ?thesis
    using e1 e2 l1 l2 by (simp add: upload_chunk_def Let_def)
qed

text \<open>
  C9 as stated does not hold: the name of the \<open>data_file\<close> part is not the caller's
  \<open>file_name\<close>. Line 581 overwrites the argument with the name of the opened file, so a
  call with file_path \<open>a.csv\<close> and file_name \<open>b.csv\<close> submits its chunk under the name
  \<open>a.csv\<close>.
\<close>

theorem upload_dataset_file_name_counterexample:
  "map data_file_name
     (sent (snd (upload_dataset (\<lambda>r. 200) [''a.csv'' \<mapsto> ''h'' @ [LF] @ ''x'' @ [LF]]
                   ''a.csv'' ''ds'' ''b.csv'' 100 \<lparr>sent = [], printed = []\<rparr>)))
     = [''a.csv'']
   \<and> ''a.csv'' \<noteq> ''b.csv''"
proof -
  have p: "path_str ''a.csv'' = ''a.csv''" by code_simp
  have "csv_reader (readlines (''h'' @ [LF] @ ''x'' @ [LF])) = ([[''h''], [''x'']], None)"
    by code_simp
  then show ?thesis
    using p by (simp add: upload_dataset_def upload_step_def upload_chunk_def Let_def)
qed

text \<open>
  C9, as amended. Every chunk of a call
  \<open>upload_dataset(file_path, dataset_id, file_name, rows_per_chunk)\<close> is submitted as a
  multipart request whose \<open>data_file\<close> part is named with the name of the opened file,
  which is \<open>str(Path(file_path))\<close> (for \<open>./f.csv\<close> it is \<open>f.csv\<close>), whatever \<open>file_name\<close>
  the caller gave, and carries as content the line of the quoted header fields, a line
  feed and the lines of a non-empty list of rows of the file, joined by line feeds,
  together with the form fields \<open>dataset_id\<close>, as given, and \<open>chunk_number\<close>, counting
  from 1.
\<close>

theorem upload_dataset_request_parts:
  assumes "fs (path_str file_path) = Some content"
    and "csv_reader (readlines content) = (header # data, None)"
  shows "\<exists>pbar w1 new.
           upload_dataset tr fs file_path did file_name rpc w = (Inr pbar, w1)
         \<and> upload_dataset tr fs file_path did other_name rpc w = (Inr pbar, w1)
         \<and> sent w1 = sent w @ new
         \<and> (\<forall>r \<in> set new.
               data_file_name r = path_str file_path \<and> dataset_id r = did
             \<and> (\<exists>ws. ws \<noteq> [] \<and> set ws \<subseteq> set data
                   \<and> data_file r
                       = str_join [delimiter] (map quote_field header) @ [LF]
                         @ str_join [LF]
                             (map (\<lambda>row. str_join [delimiter] (map quote_field row)) ws)))
         \<and> map chunk_number new = map int [1 ..< Suc (length new)]"
proof -
  let ?pbar = "\<lparr>pbar_total = int (length (readlines content)) - 1, pbar_n = 0\<rparr>"
  let ?new = "upload_requests (header_str header) (path_str file_path) did rpc data"
  obtain pbar w1 where f: "foldl (submit tr) (?pbar, w) ?new = (pbar, w1)" by (metis surj_pair)
  let ?w = "w1\<lparr>printed := printed w1 @ [UploadCompleted]\<rparr>"
  have up: "upload_dataset tr fs file_path did fname rpc w = (Inr pbar, ?w)" for fname
    using upload_dataset_requests [where fs = fs and file_path = file_path and tr = tr
        and did = did and file_name = fname and rpc = rpc and w = w, OF assms(1,2)] f
    by simp
  have sent: "sent ?w = sent w @ ?new"
    using f foldl_submit_effect [of tr ?pbar w ?new] by auto
  note sh = upload_requests_shape [of "header_str header" "path_str file_path" did rpc data,
      unfolded chunk_data_rows]
  have "upload_dataset tr fs file_path did file_name rpc w = (Inr pbar, ?w)
         \<and> upload_dataset tr fs file_path did other_name rpc w = (Inr pbar, ?w)
         \<and> sent ?w = sent w @ ?new
         \<and> (\<forall>r \<in> set ?new.
               data_file_name r = path_str file_path \<and> dataset_id r = did
             \<and> (\<exists>ws. ws \<noteq> [] \<and> set ws \<subseteq> set data
                   \<and> data_file r
                       = str_join [delimiter] (map quote_field header) @ [LF]
                         @ str_join [LF]
                             (map (\<lambda>row. str_join [delimiter] (map quote_field row)) ws)))
         \<and> map chunk_number ?new = map int [1 ..< Suc (length ?new)]"
    using up sent sh by (intro conjI) blast+
  then show ?thesis by (intro exI [of _ pbar] exI [of _ ?w] exI [of _ ?new])
qed

theorem upload_dataset_request_parts_witness:
  "path_str ''./data//f.csv'' = ''data/f.csv''
   \<and> csv_reader (readlines (''h'' @ [LF] @ ''a'' @ [LF] @ ''b'' @ [LF] @ ''c'' @ [LF]))
     = ([''h''] # [[''a''], [''b''], [''c'']], None)
   \<and> (\<exists>pbar w1 new.
         upload_dataset (\<lambda>r. 200)
           [''data/f.csv'' \<mapsto> ''h'' @ [LF] @ ''a'' @ [LF] @ ''b'' @ [LF] @ ''c'' @ [LF]]
           ''./data//f.csv'' ''ds'' ''up.csv'' 2 \<lparr>sent = [], printed = []\<rparr> = (Inr pbar, w1)
       \<and> sent w1 = sent \<lparr>sent = [], printed = []\<rparr> @ new
       \<and> map data_file_name new = replicate (length new) ''data/f.csv''
       \<and> map chunk_number new = map int [1 ..< Suc (length new)])"
proof -
  let ?c = "''h'' @ [LF] @ ''a'' @ [LF] @ ''b'' @ [LF] @ ''c'' @ [LF]"
  let ?fs = "[''data/f.csv'' \<mapsto> ?c]"
  let ?w = "\<lparr>sent = [], printed = []\<rparr>"
  have ps: "path_str ''./data//f.csv'' = ''data/f.csv''" by code_simp
  have a1: "?fs (path_str ''./data//f.csv'') = Some ?c" unfolding ps by simp
  have a2: "csv_reader (readlines ?c) = ([''h''] # [[''a''], [''b''], [''c'']], None)" by code_simp
  from upload_dataset_request_parts [where fs = ?fs and file_path = "''./data//f.csv''"
      and tr = "\<lambda>r. 200" and did = "''ds''" and file_name = "''up.csv''" and w = ?w and rpc = 2,
      OF a1 a2]
  obtain pbar w1 new where r:
      "upload_dataset (\<lambda>r. 200) ?fs ''./data//f.csv'' ''ds'' ''up.csv'' 2 ?w = (Inr pbar, w1)"
      "sent w1 = sent ?w @ new"
      "\<forall>r \<in> set new. data_file_name r = path_str ''./data//f.csv''"
      "map chunk_number new = map int [1 ..< Suc (length new)]"
    by blast
  have n: "map data_file_name new = replicate (length new) ''data/f.csv''"
    using r(3) unfolding ps by (simp add: map_replicate_const [symmetric] cong: map_cong)
  have e: "\<exists>pbar w1 new.
         upload_dataset (\<lambda>r. 200) ?fs ''./data//f.csv'' ''ds'' ''up.csv'' 2 ?w = (Inr pbar, w1)
       \<and> sent w1 = sent ?w @ new
       \<and> map data_file_name new = replicate (length new) ''data/f.csv''
       \<and> map chunk_number new = map int [1 ..< Suc (length new)]"
    using r(1,2,4) n by (intro exI [of _ pbar] exI [of _ w1] exI [of _ new] conjI)
  show ?thesis using ps a2 e by (intro conjI)
qed

section \<open>The pre-scan and the rows submitted\<close>

lemma reader_records_lines:
  assumes "\<forall>l \<in> set ls. line_is_record l"
  shows "reader_records parse_reset ls = (map record_of_line ls, None)"
  using assms
proof (induction ls)
  case Nil
  then show ?case by (simp add: parse_reset_def)
next
  case (Cons l ls)
  then have l: "line_is_record l" and ih: "reader_records parse_reset ls = (map record_of_line ls, None)"
    by simp_all
  from l obtain r where r: "process_line parse_reset l = Inr r" "rstate r = START_RECORD"
    by (auto simp: line_is_record_def split: sum.splits)
  then have "record_of_line l = rfields r" by (simp add: record_of_line_def)
  then show ?case using r ih by simp
qed

lemma loop_requests_rows:
  assumes "loop_requests hs fn did k (map quoted_row buf, c) data = ((rows1, c1), reqs)"
  shows "\<exists>wss rest. map data_file reqs = map (\<lambda>ws. chunk_data hs (map quoted_row ws)) wss
               \<and> rows1 = map quoted_row rest
               \<and> concat wss @ rest = buf @ data
               \<and> [] \<notin> set wss"
  using assms
proof (induction data arbitrary: buf c rows1 c1 reqs)
  case Nil
  then show ?case by auto
next
  case (Cons row rest)
  define bufa where "bufa = buf @ [row]"
  have enc: "map quoted_row buf @ [quoted_row row] = map quoted_row bufa"
    by (simp add: bufa_def)
  show ?case
  proof (cases "int (length (map quoted_row bufa)) = k")
    case True
    obtain rows2 c2 reqs2 where lr:
        "loop_requests hs fn did k (map quoted_row [], c + 1) rest = ((rows2, c2), reqs2)"
      by (metis surj_pair)
    define rq where "rq = \<lparr>data_file_name = fn, data_file = chunk_data hs (map quoted_row bufa),
                        dataset_id = did, chunk_number = c + 1\<rparr>"
    have eq: "rows1 = rows2" "reqs = rq # reqs2"
      using Cons.prems True lr unfolding loop_requests.simps enc
      by (simp_all add: Let_def rq_def)
    from Cons.IH [OF lr] obtain wss rest2 where w:
        "map data_file reqs2 = map (\<lambda>ws. chunk_data hs (map quoted_row ws)) wss"
        "rows2 = map quoted_row rest2" "concat wss @ rest2 = [] @ rest" "[] \<notin> set wss"
      by blast
    have "map data_file reqs = map (\<lambda>ws. chunk_data hs (map quoted_row ws)) (bufa # wss)"
      using w(1) eq by (simp add: rq_def)
    moreover have "rows1 = map quoted_row rest2" using w(2) eq by simp
    moreover have "concat (bufa # wss) @ rest2 = buf @ row # rest"
      using w(3) by (simp add: bufa_def)
    moreover have "[] \<notin> set (bufa # wss)" using w(4) by (simp add: bufa_def)
    ultimately show ?thesis by blast
  next
    case False
    then have lr: "loop_requests hs fn did k (map quoted_row bufa, c) rest = ((rows1, c1), reqs)"
      using Cons.prems unfolding loop_requests.simps enc by (simp add: Let_def)
    from Cons.IH [OF lr] show ?thesis by (simp add: bufa_def)
  qed
qed

lemma upload_requests_rows:
  "\<exists>wss. map data_file (upload_requests hs fn did k data)
              = map (\<lambda>ws. chunk_data hs (map quoted_row ws)) wss
         \<and> concat wss = data \<and> [] \<notin> set wss"
proof -
  obtain rows1 c1 reqs where lr:
      "loop_requests hs fn did k (map quoted_row [], 0) data = ((rows1, c1), reqs)"
    by (metis surj_pair)
  from loop_requests_rows [OF lr] obtain wss rest where w:
      "map data_file reqs = map (\<lambda>ws. chunk_data hs (map quoted_row ws)) wss"
      "rows1 = map quoted_row rest" "concat wss @ rest = data" "[] \<notin> set wss"
    by auto
  have lr': "loop_requests hs fn did k ([], 0) data = ((rows1, c1), reqs)" using lr by simp
  show ?thesis
  proof (cases "rest = []")
    case True
    then have "upload_requests hs fn did k data = reqs"
      using lr' w(2) by (simp add: upload_requests_def)
    with w True show ?thesis by auto
  next
    case False
    then have "map data_file (upload_requests hs fn did k data)
                 = map (\<lambda>ws. chunk_data hs (map quoted_row ws)) (wss @ [rest])"
      using lr' w(1,2) by (simp add: upload_requests_def)
    moreover have "concat (wss @ [rest]) = data" using w(3) by simp
    moreover have "[] \<notin> set (wss @ [rest])" using w(4) False by simp
    ultimately show ?thesis by blast
  qed
qed

lemma sum_chunk_lines:
  assumes "\<forall>ws \<in> set wss. int (length (splitlines (chunk_data hs (map quoted_row ws)))) - 1
                              = int (length ws)"
  shows "(\<Sum>ws\<leftarrow>wss. int (length (splitlines (chunk_data hs (map quoted_row ws)))) - 1)
           = int (length (concat wss))"
  using assms by (induction wss) simp_all

lemma progress_is_row_count:
  assumes "[] \<notin> set wss" and "[] \<notin> set (concat wss)"
    and "\<forall>f \<in> set header. \<forall>c \<in> set f. \<not> is_linebreak c"
    and "\<forall>row \<in> set (concat wss). \<forall>f \<in> set row. \<forall>c \<in> set f. \<not> is_linebreak c"
  shows "(\<Sum>ws\<leftarrow>wss. int (length (splitlines (chunk_data (header_str header) (map quoted_row ws)))) - 1)
           = int (length (concat wss))"
proof (rule sum_chunk_lines, rule ballI)
  fix ws assume in_wss: "ws \<in> set wss"
  then have ne: "ws \<noteq> []" using assms(1) by auto
  have sub: "set ws \<subseteq> set (concat wss)" using in_wss by auto
  have "last ws \<in> set ws" using ne by simp
  then have l: "last ws \<noteq> []" using sub assms(2) by auto
  have wsb: "\<forall>row \<in> set ws. \<forall>f \<in> set row. \<forall>c \<in> set f. \<not> is_linebreak c"
    using sub assms(4) by blast
  show "int (length (splitlines (chunk_data (header_str header) (map quoted_row ws)))) - 1
          = int (length ws)"
    by (rule chunk_lines_are_rows [OF ne l assms(3) wsb])
qed


text \<open>
  When every line of the file holds one whole record (no quoted field holds a line
  break), the pre-scan does count the rows: \<open>upload_dataset\<close> returns normally, whatever
  the statuses of the submissions, the rows it has submitted, all chunks taken together,
  are the data rows of the file in order, and their number is the number of lines of the
  file minus one. When moreover every submission is answered 200, no data row is empty
  and no field holds a line boundary, the progress bar ends at that count too.
\<close>

lemma upload_dataset_one_record_per_line:
  assumes "fs (path_str file_path) = Some content"
    and "readlines content \<noteq> []"
    and "\<forall>l \<in> set (readlines content). line_is_record l"
  shows "\<exists>header data pbar w1 wss.
           csv_reader (readlines content) = (header # data, None)
         \<and> upload_dataset tr fs file_path did file_name rpc w = (Inr pbar, w1)
         \<and> map data_file (drop (length (sent w)) (sent w1)) = map (encode header) wss
         \<and> concat wss = data \<and> [] \<notin> set wss
         \<and> int (sum_list (map length wss)) = pbar_total pbar
         \<and> pbar_total pbar = int (length (readlines content)) - 1
         \<and> ((\<forall>r \<in> set (drop (length (sent w)) (sent w1)). tr r = 200)
              \<and> [] \<notin> set data
              \<and> (\<forall>f \<in> set header. \<forall>c \<in> set f. \<not> is_linebreak c)
              \<and> (\<forall>row \<in> set data. \<forall>f \<in> set row. \<forall>c \<in> set f. \<not> is_linebreak c)
              \<longrightarrow> pbar_n pbar = pbar_total pbar)"
proof -
  define ls where "ls = readlines content"
  obtain l0 rest where ls: "ls = l0 # rest" using assms(2) by (cases ls) (simp_all add: ls_def)
  define header where "header = record_of_line l0"
  define data where "data = map record_of_line rest"
  have rd: "csv_reader (readlines content) = (header # data, None)"
    using reader_records_lines [OF assms(3)] ls
    by (simp add: csv_reader_def ls_def [symmetric] header_def data_def)
  let ?pbar = "\<lparr>pbar_total = int (length (readlines content)) - 1, pbar_n = 0\<rparr>"
  let ?new = "upload_requests (header_str header) (path_str file_path) did rpc data"
  let ?lines = "\<lambda>d. int (length (splitlines d)) - 1"
  obtain pbar w1 where f: "foldl (submit tr) (?pbar, w) ?new = (pbar, w1)" by (metis surj_pair)
  let ?w = "w1\<lparr>printed := printed w1 @ [UploadCompleted]\<rparr>"
  have up: "upload_dataset tr fs file_path did file_name rpc w = (Inr pbar, ?w)"
    using upload_dataset_requests [where fs = fs and file_path = file_path and tr = tr
        and did = did and file_name = file_name and rpc = rpc and w = w, OF assms(1) rd] f
    by simp
  have eff: "sent ?w = sent w @ ?new" "pbar_total pbar = int (length (readlines content)) - 1"
      "pbar_n pbar = (\<Sum>r\<leftarrow>?new. if tr r = 200 then ?lines (data_file r) else 0)"
    using f foldl_submit_effect [of tr ?pbar w ?new] by auto
  from upload_requests_rows [of "header_str header" "path_str file_path" did rpc data]
  obtain wss where wss: "map data_file ?new = map (encode header) wss"
      "concat wss = data" "[] \<notin> set wss"
    unfolding encode_def by blast
  have "sum_list (map length wss) = length (concat wss)" by (simp add: length_concat)
  also have "\<dots> = length data" using wss(2) by simp
  also have "\<dots> = length (readlines content) - 1" using ls by (simp add: data_def ls_def [symmetric])
  finally have cnt: "int (sum_list (map length wss)) = pbar_total pbar"
    using eff(2) assms(2) by (cases "readlines content") simp_all
  have lenc: "int (length (concat wss)) = pbar_total pbar"
    using cnt by (simp add: length_concat)
  have prog: "pbar_n pbar = pbar_total pbar"
    if all: "\<forall>r \<in> set ?new. tr r = 200" and ne: "[] \<notin> set data"
      and hb: "\<forall>f \<in> set header. \<forall>c \<in> set f. \<not> is_linebreak c"
      and db: "\<forall>row \<in> set data. \<forall>f \<in> set row. \<forall>c \<in> set f. \<not> is_linebreak c"
  proof -
    have "pbar_n pbar = (\<Sum>r\<leftarrow>?new. ?lines (data_file r))"
      unfolding eff(3) using all by (simp cong: map_cong)
    also have "\<dots> = sum_list (map ?lines (map data_file ?new))" by (simp add: comp_def)
    also have "\<dots> = (\<Sum>ws\<leftarrow>wss. ?lines (chunk_data (header_str header) (map quoted_row ws)))"
      unfolding wss(1) by (simp add: comp_def encode_def)
    also have "\<dots> = int (length (concat wss))"
      using progress_is_row_count [OF wss(3), of header] ne hb db wss(2) by simp
    finally show ?thesis using lenc by simp
  qed
  have "csv_reader (readlines content) = (header # data, None)
         \<and> upload_dataset tr fs file_path did file_name rpc w = (Inr pbar, ?w)
         \<and> map data_file (drop (length (sent w)) (sent ?w)) = map (encode header) wss
         \<and> concat wss = data \<and> [] \<notin> set wss
         \<and> int (sum_list (map length wss)) = pbar_total pbar
         \<and> pbar_total pbar = int (length (readlines content)) - 1
         \<and> ((\<forall>r \<in> set (drop (length (sent w)) (sent ?w)). tr r = 200)
              \<and> [] \<notin> set data
              \<and> (\<forall>f \<in> set header. \<forall>c \<in> set f. \<not> is_linebreak c)
              \<and> (\<forall>row \<in> set data. \<forall>f \<in> set row. \<forall>c \<in> set f. \<not> is_linebreak c)
              \<longrightarrow> pbar_n pbar = pbar_total pbar)"
    using rd up eff(1,2) wss cnt prog by simp
  then show ?thesis
    by (intro exI [of _ header] exI [of _ data] exI [of _ pbar] exI [of _ ?w] exI [of _ wss])
qed

text \<open>
  C3. The pre-scan of line 573 does not determine the number of rows, as the comment at
  line 571 and the claim have it: it counts the lines of the file, while the loop submits
  the records that \<open>csv.reader\<close> yields, and a quoted field that holds a line break makes
  one record of two lines. The file with the three lines \<open>h\<close>, \<open>"x\<close> and \<open>y"\<close> has one
  data row; the pre-scan sets the total of the progress bar to 2, and the one chunk
  submitted carries the header and the 1 data row.
\<close>

theorem upload_dataset_prescan_counts_lines:
  "readlines (''h'' @ [LF] @ [quotechar] @ ''x'' @ [LF] @ ''y'' @ [quotechar] @ [LF])
     = [''h'' @ [LF], [quotechar] @ ''x'' @ [LF], ''y'' @ [quotechar] @ [LF]]
   \<and> csv_reader (readlines
        (''h'' @ [LF] @ [quotechar] @ ''x'' @ [LF] @ ''y'' @ [quotechar] @ [LF]))
     = ([[''h''], [''x'' @ [LF] @ ''y'']], None)
   \<and> upload_dataset (\<lambda>r. 200)
        [''f.csv'' \<mapsto> ''h'' @ [LF] @ [quotechar] @ ''x'' @ [LF] @ ''y'' @ [quotechar] @ [LF]]
        ''f.csv'' ''ds'' ''f.csv'' 100 \<lparr>sent = [], printed = []\<rparr>
     = (Inr \<lparr>pbar_total = 2, pbar_n = 2\<rparr>,
        \<lparr>sent = [\<lparr>data_file_name = ''f.csv'',
                   data_file = [CHR 0x22, CHR ''h'', CHR 0x22, CHR 0x0A,
                                CHR 0x22, CHR ''x'', CHR 0x0A, CHR ''y'', CHR 0x22],
                   dataset_id = ''ds'', chunk_number = 1\<rparr>],
         printed = [UploadCompleted]\<rparr>)"
proof -
  let ?c = "''h'' @ [LF] @ [quotechar] @ ''x'' @ [LF] @ ''y'' @ [quotechar] @ [LF]"
  have p: "path_str ''f.csv'' = ''f.csv''" by code_simp
  have rl: "readlines ?c = [''h'' @ [LF], [quotechar] @ ''x'' @ [LF], ''y'' @ [quotechar] @ [LF]]"
    by code_simp
  have r: "csv_reader (readlines ?c) = ([[''h''], [''x'' @ [LF] @ ''y'']], None)"
    by code_simp
  have l: "length (readlines ?c) = 3" by code_simp
  have cd: "chunk_data (header_str [''h'']) [quoted_row [''x'' @ [LF] @ ''y'']]
              = [CHR 0x22, CHR ''h'', CHR 0x22, CHR 0x0A,
                 CHR 0x22, CHR ''x'', CHR 0x0A, CHR ''y'', CHR 0x22]"
    by code_simp
  have sl: "length (splitlines [CHR 0x22, CHR ''h'', CHR 0x22, CHR 0x0A,
                 CHR 0x22, CHR ''x'', CHR 0x0A, CHR ''y'', CHR 0x22]) = 3"
    by code_simp
  have up: "upload_dataset (\<lambda>r. 200) [''f.csv'' \<mapsto> ?c]
        ''f.csv'' ''ds'' ''f.csv'' 100 \<lparr>sent = [], printed = []\<rparr>
     = (Inr \<lparr>pbar_total = 2, pbar_n = 2\<rparr>,
        \<lparr>sent = [\<lparr>data_file_name = ''f.csv'',
                   data_file = [CHR 0x22, CHR ''h'', CHR 0x22, CHR 0x0A,
                                CHR 0x22, CHR ''x'', CHR 0x0A, CHR ''y'', CHR 0x22],
                   dataset_id = ''ds'', chunk_number = 1\<rparr>],
         printed = [UploadCompleted]\<rparr>)"
    using p r l cd sl
    by (simp add: upload_dataset_def upload_step_def upload_chunk_def Let_def)
  show ?thesis using rl r up by (intro conjI)
qed

end
